theory Spec2Isabelle
  imports Main "HOL-Library.AList" "HOL-Library.Word"
begin

section \<open>Query trees (the part of RelayQuery that subtractRelayQuery reads)\<close>

text \<open>
  Argument values of a call. \<open>areEqual\<close> of fbjs is deep value equality, which on this
  datatype is HOL equality. The values covered are \<open>undefined\<close>, \<open>null\<close>, the booleans,
  the numbers that are integers from \<open>-2^53\<close> to \<open>2^53 - 1\<close> (\<open>VNum w\<close> is the number
  \<open>sint w\<close>, also where \<open>w\<close> is written with a numeral beyond that range; a double holds
  each of these integers exactly), the strings whose characters are below
  U+0100 (the characters of HOL), and the arrays of such values. Fractions, larger
  numbers, \<open>NaN\<close>, the infinities, \<open>-0\<close> and objects are not among the values.
\<close>

datatype call_value =
    VUndefined
  | VNull
  | VBool bool
  | VNum "54 word"
  | VStr string
  | VArray "call_value list"

record call =
  name :: string
  "value" :: call_value

text \<open>
  What the getters of a \<open>RelayQuery.Field\<close> return: \<open>getSchemaName\<close>,
  \<open>getApplicationName\<close>, \<open>getCallsWithValues\<close>, \<open>isRequisite\<close>,
  \<open>isRefQueryDependency\<close>, \<open>canHaveSubselections\<close>, \<open>isConnection\<close>.
\<close>

record field_info =
  schemaName :: string
  applicationName :: string
  callsWithValues :: "call list"
  isRequisite :: bool
  isRefQueryDependency :: bool
  canHaveSubselections :: bool
  isConnection :: bool

text \<open>
  A node is a Root (field name, identifying argument, children), a Fragment (children)
  or a Field (its getters, children).
\<close>

datatype node =
    Root string "call option" "node list"
  | Fragment "node list"
  | Field field_info "node list"

fun getChildren :: "node \<Rightarrow> node list" where
  "getChildren (Root f a cs) = cs"
| "getChildren (Fragment cs) = cs"
| "getChildren (Field i cs) = cs"

fun isRoot :: "node \<Rightarrow> bool" where
  "isRoot (Root f a cs) = True"
| "isRoot (Fragment cs) = False"
| "isRoot (Field i cs) = False"

fun isField :: "node \<Rightarrow> bool" where
  "isField (Root f a cs) = False"
| "isField (Fragment cs) = False"
| "isField (Field i cs) = True"

text \<open>The copy that \<open>clone\<close> makes: the same node with other children.\<close>

fun withChildren :: "node \<Rightarrow> node list \<Rightarrow> node" where
  "withChildren (Root f a cs) ds = Root f a ds"
| "withChildren (Fragment cs) ds = Fragment ds"
| "withChildren (Field i cs) ds = Field i ds"

text \<open>
  A transform returns \<open>null\<close>, the node it was given (the same reference), or a node
  it has just created. Reference identity is modelled by this tag: \<open>Same\<close> is the
  argument itself, \<open>New d\<close> is a fresh object \<open>d\<close>, never identical to an older one.
\<close>

datatype diff = Null | Same | New node

fun resolve :: "node \<Rightarrow> diff \<Rightarrow> node option" where
  "resolve n Null = None"
| "resolve n Same = Some n"
| "resolve n (New d) = Some d"

fun compact :: "node list \<Rightarrow> diff list \<Rightarrow> node list" where
  "compact (c # cs) (r # rs) =
     (case resolve c r of None \<Rightarrow> compact cs rs | Some d \<Rightarrow> d # compact cs rs)"
| "compact cs rs = []"

text \<open>
  Modelled from the spec: \<open>clone\<close> of RelayQuery is not among the sources. A node is
  immutable and a transform produces a new node or reuses the original by reference:
  \<open>clone\<close> takes the children that the visitor returned (one result per child, in
  order), drops the \<open>null\<close> ones, and returns \<open>null\<close> when none is left, the node
  itself when every child came back as the same reference, and otherwise a copy of the
  node with the remaining children in their order.
\<close>

definition clone :: "node \<Rightarrow> diff list \<Rightarrow> diff" where
  "clone n rs =
     (let nextChildren = compact (getChildren n) rs in
      if nextChildren = [] then Null
      else if list_all (\<lambda>r. r = Same) rs then Same
      else New (withChildren n nextChildren))"

section \<open>parseInt and the comparison of range counts\<close>

definition isDigit :: "char \<Rightarrow> bool" where
  "isDigit c = (48 \<le> (of_char c :: nat) \<and> (of_char c :: nat) \<le> 57)"

definition digitVal :: "char \<Rightarrow> nat" where
  "digitVal c = of_char c - 48"

text \<open>
  The white space that \<open>parseInt\<close> skips (\<open>StrWhiteSpaceChar\<close>), as far as it lies below
  U+0100: TAB, LF, VT, FF, CR, space and the no-break space U+00A0.
\<close>

definition isWhite :: "char \<Rightarrow> bool" where
  "isWhite c =
     (c \<in> set [CHR '' '', CHR 0x09, CHR 0x0A, CHR 0x0B, CHR 0x0C, CHR 0x0D, CHR 0xA0])"

text \<open>
  What \<open>parseInt\<close> returns: \<open>NaN\<close>, an infinity, or a double that is an integer
  (\<open>Integer i\<close>, with \<open>i\<close> its value; \<open>-0\<close> is \<open>Integer 0\<close>, which no comparison tells
  from \<open>0\<close>). \<open>numLeq\<close> is \<open><=\<close> on these numbers: false as soon as one side is
  \<open>NaN\<close>.
\<close>

datatype number = NaN | NegInfinity | Integer int | PosInfinity

fun numLeq :: "number \<Rightarrow> number \<Rightarrow> bool" where
  "numLeq NaN y = False"
| "numLeq x NaN = False"
| "numLeq NegInfinity y = True"
| "numLeq x PosInfinity = True"
| "numLeq (Integer a) (Integer b) = (a \<le> b)"
| "numLeq x y = False"

text \<open>
  The double nearest to a natural number (ties go to the even significand of 53 bits);
  \<open>None\<close> when it is beyond the largest double, where the number value is an infinity.
  \<open>bits n\<close> is the length of \<open>n\<close> in binary.
\<close>

fun bits :: "nat \<Rightarrow> nat" where
  "bits n = (if n = 0 then 0 else Suc (bits (n div 2)))"

declare bits.simps [simp del]

definition roundDouble :: "nat \<Rightarrow> nat option" where
  "roundDouble n =
     (if n \<le> 2 ^ 53 then Some n
      else let e = bits n - 53;
               q = n div 2 ^ e;
               r = n mod 2 ^ e;
               h = 2 ^ (e - 1);
               q' = (if h < r \<or> (r = h \<and> odd q) then q + 1 else q);
               v = q' * 2 ^ e
           in if v < 2 ^ 1024 then Some v else None)"

text \<open>
  \<open>parseInt(s, 10)\<close>: leading white space is skipped, one sign is read, then the longest
  run of decimal digits (with the radix given as 10 no prefix \<open>0x\<close> is looked for);
  without a digit the result is \<open>NaN\<close>, otherwise the number value of the integer the
  digits denote. (The standard lets an engine replace the digits after the twentieth
  significant one by zeros; here they are read as they are.)
\<close>

definition parseInt :: "string \<Rightarrow> number" where
  "parseInt s =
     (let t = dropWhile isWhite s;
          neg = (t \<noteq> [] \<and> hd t = CHR ''-'');
          u = (if t \<noteq> [] \<and> (hd t = CHR ''-'' \<or> hd t = CHR ''+'') then tl t else t);
          z = takeWhile isDigit u
      in if z = [] then NaN
         else (case roundDouble (foldl (\<lambda>a c. 10 * a + digitVal c) 0 z) of
                 None \<Rightarrow> if neg then NegInfinity else PosInfinity
               | Some v \<Rightarrow> Integer (if neg then - int v else int v)))"

fun digits :: "nat \<Rightarrow> nat \<Rightarrow> string" where
  "digits 0 n = []"
| "digits (Suc k) n =
     (if n < 10 then [char_of (48 + n)]
      else digits k (n div 10) @ [char_of (48 + n mod 10)])"

definition showInt :: "int \<Rightarrow> string" where
  "showInt i = (if i < 0 then CHR ''-'' # digits (Suc (nat (- i))) (nat (- i))
                else digits (Suc (nat i)) (nat i))"

fun intersperse :: "string \<Rightarrow> string list \<Rightarrow> string" where
  "intersperse sep [] = []"
| "intersperse sep [x] = x"
| "intersperse sep (x # y # ys) = x @ sep @ intersperse sep (y # ys)"

text \<open>\<open>'' + v\<close>: the string conversion of a value (a number of the range covered is
  written with all its decimal digits; an array joins its elements with commas, \<open>null\<close> and
  \<open>undefined\<close> elements giving the empty string).\<close>

fun toStr :: "call_value \<Rightarrow> string" where
  "toStr VUndefined = ''undefined''"
| "toStr VNull = ''null''"
| "toStr (VBool b) = (if b then ''true'' else ''false'')"
| "toStr (VNum w) = showInt (sint w)"
| "toStr (VStr s) = s"
| "toStr (VArray vs) =
     intersperse '','' (map (\<lambda>v. if v = VUndefined \<or> v = VNull then [] else toStr v) vs)"

text \<open>\<open>parseInt('' + a, 10) <= parseInt('' + b, 10)\<close>.\<close>

definition countLeq :: "call_value \<Rightarrow> call_value \<Rightarrow> bool" where
  "countLeq a b = numLeq (parseInt (toStr a)) (parseInt (toStr b))"

section \<open>subtractRelayQuery.js: the helper predicates\<close>

text \<open>\<open>isEmptyField\<close>: a field without subselections is empty when it is requisite, not a
  ref query dependency and not aliased; any other node when all its children are.\<close>

fun isEmptyField :: "node \<Rightarrow> bool" where
  "isEmptyField (Field i cs) =
     (if \<not> canHaveSubselections i
      then isRequisite i \<and> \<not> isRefQueryDependency i \<and> applicationName i = schemaName i
      else list_all isEmptyField cs)"
| "isEmptyField (Root f a cs) = list_all isEmptyField cs"
| "isEmptyField (Fragment cs) = list_all isEmptyField cs"

fun canSubtractRoot :: "node \<Rightarrow> node \<Rightarrow> bool" where
  "canSubtractRoot (Root f a cs) (Root g b ds) = (f = g \<and> a = b)"
| "canSubtractRoot m s = False"

text \<open>\<open>Array.prototype.every\<close> with the index passed to the callback.\<close>

fun everyFrom :: "nat \<Rightarrow> ('a \<Rightarrow> nat \<Rightarrow> bool) \<Rightarrow> 'a list \<Rightarrow> bool" where
  "everyFrom ii p [] = True"
| "everyFrom ii p (x # xs) = (if p x ii then everyFrom (Suc ii) p xs else False)"

definition every :: "('a \<Rightarrow> nat \<Rightarrow> bool) \<Rightarrow> 'a list \<Rightarrow> bool" where
  "every p xs = everyFrom 0 p xs"

text \<open>\<open>subArgs[ii]\<close>: reading beyond the end gives \<open>undefined\<close>.\<close>

definition at :: "'a list \<Rightarrow> nat \<Rightarrow> 'a option" where
  "at xs ii = (if ii < length xs then Some (xs ! ii) else None)"

definition canSubtractField :: "field_info \<Rightarrow> field_info \<Rightarrow> bool" where
  "canSubtractField minField subField =
     (if schemaName minField \<noteq> schemaName subField then False
      else let minArgs = callsWithValues minField;
               subArgs = callsWithValues subField
           in if length minArgs \<noteq> length subArgs then False
              else every (\<lambda>minArg ii.
                     case at subArgs ii of
                       None \<Rightarrow> False
                     | Some subArg \<Rightarrow>
                         if name minArg \<noteq> name subArg then False
                         else if name minArg = ''first'' \<or> name minArg = ''last''
                           then countLeq (value minArg) (value subArg)
                         else value minArg = value subArg) minArgs)"

fun matchesRange :: "field_info \<Rightarrow> node \<Rightarrow> bool" where
  "matchesRange i (Field j ds) = canSubtractField i j"
| "matchesRange i n = False"

definition getMatchingRangeFields :: "field_info \<Rightarrow> node \<Rightarrow> node list" where
  "getMatchingRangeFields i subtrahend = filter (matchesRange i) (getChildren subtrahend)"

section \<open>subtractRelayQuery.js: the visitor\<close>

text \<open>
  What \<open>invariant\<close> throws, with the message of the source, and what a promise is
  rejected with.
\<close>

datatype error = Invariant string | Thrown string

definition nonRootSubtrahend :: error where
  "nonRootSubtrahend = Invariant ''subtractRelayQuery(): Cannot subtract a non-root node from a root.''"

definition expectedRoot :: error where
  "expectedRoot = Invariant ''subtractRelayQuery(): Expected a subtracted query root.''"

text \<open>
  \<open>subtrahend.getField(node)\<close> belongs to RelayQuery, which is not among the sources: it
  is a parameter \<open>gf\<close> of every function below, and what is proved holds for any lookup.
\<close>

type_synonym getField = "node \<Rightarrow> node \<Rightarrow> node option"

fun nsize :: "node \<Rightarrow> nat" where
  "nsize (Root f a cs) = Suc (sum_list (map nsize cs))"
| "nsize (Fragment cs) = Suc (sum_list (map nsize cs))"
| "nsize (Field i cs) = Suc (sum_list (map nsize cs))"

text \<open>
  The visitor state \<open>{isEmpty, subtrahend}\<close> is passed as two arguments; a method
  returns its result together with the \<open>isEmpty\<close> it leaves in the state (it never
  assigns \<open>subtrahend\<close>).
\<close>

definition subtractScalar ::
  "getField \<Rightarrow> field_info \<Rightarrow> node list \<Rightarrow> node \<Rightarrow> bool \<Rightarrow> diff \<times> bool" where
  "subtractScalar gf i cs subtrahend isEmpty =
     (let subField = gf subtrahend (Field i cs) in
      if subField \<noteq> None \<and> \<not> isRequisite i then (Null, isEmpty)
      else (Same, isEmptyField (Field i cs)))"

text \<open>
  \<open>visit\<close> dispatches on the class of the node (\<open>visitRoot\<close>, \<open>visitFragment\<close>,
  \<open>visitField\<close>); \<open>subtractRanges\<close> is the \<open>for\<close> loop of \<open>_subtractConnection\<close>
  (\<open>d\<close> is the current \<open>diff\<close>, \<open>same\<close> tells whether it still is the node the loop
  started from); \<open>mapChildren\<close> is the \<open>map\<close> over the children in
  \<open>_subtractChildren\<close>.
\<close>

function
  visit :: "getField \<Rightarrow> node \<Rightarrow> node \<Rightarrow> bool \<Rightarrow> error + (diff \<times> bool)" and
  subtractConnection ::
    "getField \<Rightarrow> field_info \<Rightarrow> node list \<Rightarrow> node \<Rightarrow> bool \<Rightarrow> error + (diff \<times> bool)" and
  subtractRanges :: "getField \<Rightarrow> node \<Rightarrow> bool \<Rightarrow> node list \<Rightarrow> bool \<Rightarrow> error + (diff \<times> bool)" and
  subtractField ::
    "getField \<Rightarrow> field_info \<Rightarrow> node list \<Rightarrow> node \<Rightarrow> bool \<Rightarrow> error + (diff \<times> bool)" and
  subtractChildren :: "getField \<Rightarrow> node \<Rightarrow> node \<Rightarrow> bool \<Rightarrow> error + (diff \<times> bool)" and
  mapChildren :: "getField \<Rightarrow> node list \<Rightarrow> node \<Rightarrow> bool \<Rightarrow> error + (diff list \<times> bool)"
where
  "visit gf (Root f a cs) subtrahend isEmpty =
     (if \<not> isRoot subtrahend then Inl nonRootSubtrahend
      else if \<not> canSubtractRoot (Root f a cs) subtrahend then Inr (Same, False)
      else subtractChildren gf (Root f a cs) subtrahend isEmpty)"
| "visit gf (Fragment cs) subtrahend isEmpty =
     subtractChildren gf (Fragment cs) subtrahend isEmpty"
| "visit gf (Field i cs) subtrahend isEmpty =
     (case (if \<not> canHaveSubselections i
              then Inr (subtractScalar gf i cs subtrahend isEmpty)
            else if isConnection i
              then subtractConnection gf i cs subtrahend isEmpty
            else subtractField gf i cs subtrahend isEmpty) of
        Inl e \<Rightarrow> Inl e
      | Inr (diff, isEmpty') \<Rightarrow>
          if diff \<noteq> Null \<and> (isRequisite i \<or> \<not> isEmpty') then Inr (diff, isEmpty')
          else Inr (Null, isEmpty'))"
| "subtractConnection gf i cs subtrahend isEmpty =
     (let subtrahendRanges = getMatchingRangeFields i subtrahend in
      if subtrahendRanges = [] then Inr (Same, isEmptyField (Field i cs))
      else subtractRanges gf (Field i cs) True subtrahendRanges isEmpty)"
| "subtractRanges gf d same [] isEmpty = Inr (if same then Same else New d, isEmpty)"
| "subtractRanges gf d same (r # rs) isEmpty =
     (case subtractChildren gf d r True of
        Inl e \<Rightarrow> Inl e
      | Inr (Null, fieldEmpty) \<Rightarrow> Inr (Null, fieldEmpty)
      | Inr (Same, fieldEmpty) \<Rightarrow> subtractRanges gf d same rs fieldEmpty
      | Inr (New d', fieldEmpty) \<Rightarrow> subtractRanges gf d' False rs fieldEmpty)"
| "subtractField gf i cs subtrahend isEmpty =
     (case gf subtrahend (Field i cs) of
        None \<Rightarrow> Inr (Same, isEmptyField (Field i cs))
      | Some subField \<Rightarrow> subtractChildren gf (Field i cs) subField True)"
| "subtractChildren gf node subtrahend isEmpty =
     (case mapChildren gf (getChildren node) subtrahend isEmpty of
        Inl e \<Rightarrow> Inl e
      | Inr (rs, isEmpty') \<Rightarrow> Inr (clone node rs, isEmpty'))"
| "mapChildren gf [] subtrahend isEmpty = Inr ([], isEmpty)"
| "mapChildren gf (child # cs) subtrahend isEmpty =
     (case visit gf child subtrahend True of
        Inl e \<Rightarrow> Inl e
      | Inr (diff, childEmpty) \<Rightarrow>
          (case mapChildren gf cs subtrahend (isEmpty \<and> childEmpty) of
             Inl e \<Rightarrow> Inl e
           | Inr (rs, isEmpty') \<Rightarrow> Inr (diff # rs, isEmpty')))"
  by pat_completeness auto

text \<open>
  The loop of \<open>_subtractConnection\<close> goes on with the node that the previous round
  returned, so termination needs that a returned node is no larger than the one visited.
\<close>

lemma nsize_withChildren: "nsize (withChildren n ds) = Suc (sum_list (map nsize ds))"
  by (cases n) simp_all

lemma nsize_getChildren: "nsize n = Suc (sum_list (map nsize (getChildren n)))"
  by (cases n) simp_all

lemma nsize_pos: "0 < nsize n"
  by (cases n) simp_all

lemma sum_nsize_pos: "cs \<noteq> [] \<Longrightarrow> 0 < sum_list (map nsize cs)"
  by (cases cs) (simp_all add: nsize_pos)

lemma clone_size:
  "clone n rs = New d \<Longrightarrow> sum_list (map nsize (compact (getChildren n) rs)) \<le> k \<Longrightarrow>
   nsize d \<le> Suc k"
  by (auto simp: clone_def Let_def nsize_withChildren split: if_splits)

lemma size_partial:
  "visit_subtractConnection_subtractRanges_subtractField_subtractChildren_mapChildren_dom
     (Inl (Inl (gf, n, sub, e))) \<Longrightarrow>
   (\<forall>d e'. visit gf n sub e = Inr (New d, e') \<longrightarrow> nsize d \<le> nsize n)"
  "visit_subtractConnection_subtractRanges_subtractField_subtractChildren_mapChildren_dom
     (Inl (Inr (Inl (gf, i, cs, sub, e)))) \<Longrightarrow>
   (\<forall>d e'. subtractConnection gf i cs sub e = Inr (New d, e') \<longrightarrow> nsize d \<le> nsize (Field i cs))"
  "visit_subtractConnection_subtractRanges_subtractField_subtractChildren_mapChildren_dom
     (Inl (Inr (Inr (gf, d0, same, rs, e)))) \<Longrightarrow>
   (\<forall>d e'. subtractRanges gf d0 same rs e = Inr (New d, e') \<longrightarrow> nsize d \<le> nsize d0)"
  "visit_subtractConnection_subtractRanges_subtractField_subtractChildren_mapChildren_dom
     (Inr (Inl (gf, i, cs, sub, e))) \<Longrightarrow>
   (\<forall>d e'. subtractField gf i cs sub e = Inr (New d, e') \<longrightarrow> nsize d \<le> nsize (Field i cs))"
  "visit_subtractConnection_subtractRanges_subtractField_subtractChildren_mapChildren_dom
     (Inr (Inr (Inl (gf, n, sub, e)))) \<Longrightarrow>
   (\<forall>d e'. subtractChildren gf n sub e = Inr (New d, e') \<longrightarrow> nsize d \<le> nsize n)"
  "visit_subtractConnection_subtractRanges_subtractField_subtractChildren_mapChildren_dom
     (Inr (Inr (Inr (gf, cs, sub, e)))) \<Longrightarrow>
   (\<forall>ds e'. mapChildren gf cs sub e = Inr (ds, e') \<longrightarrow>
      sum_list (map nsize (compact cs ds)) \<le> sum_list (map nsize cs))"
proof (induct rule:
    visit_subtractConnection_subtractRanges_subtractField_subtractChildren_mapChildren.pinduct)
  case (1 gf f a cs subtrahend isEmpty)
  then show ?case by (auto simp: visit.psimps)
next
  case (2 gf cs subtrahend isEmpty)
  then show ?case by (auto simp: visit.psimps)
next
  case (3 gf i cs subtrahend isEmpty)
  then show ?case
    by (auto simp: visit.psimps subtractScalar_def Let_def
             split: if_splits sum.splits prod.splits)
next
  case (4 gf i cs subtrahend isEmpty)
  then show ?case
    by (auto simp: subtractConnection.psimps Let_def split: if_splits)
next
  case (5 gf d same isEmpty)
  then show ?case by (auto simp: subtractRanges.psimps)
next
  case (6 gf d same r rs isEmpty)
  then show ?case
    by (auto simp: subtractRanges.psimps split: sum.splits diff.splits prod.splits) fastforce+
next
  case (7 gf i cs subtrahend isEmpty)
  then show ?case
    by (auto simp: subtractField.psimps split: option.splits)
next
  case (8 gf n subtrahend isEmpty)
  then show ?case
    by (auto simp: subtractChildren.psimps nsize_getChildren[of n]
             split: sum.splits prod.splits dest!: clone_size)
next
  case (9 gf subtrahend isEmpty)
  then show ?case by (auto simp: mapChildren.psimps)
next
  case (10 gf child cs subtrahend isEmpty)
  show ?case
  proof (intro allI impI)
    fix ds e'
    assume eq: "mapChildren gf (child # cs) subtrahend isEmpty = Inr (ds, e')"
    from eq 10(1) obtain r ce rs where
      v: "visit gf child subtrahend True = Inr (r, ce)" and
      m: "mapChildren gf cs subtrahend (isEmpty \<and> ce) = Inr (rs, e')" and
      ds: "ds = r # rs"
      by (auto simp: mapChildren.psimps split: sum.splits prod.splits)
    from 10(3)[OF v refl] m have rest:
      "sum_list (map nsize (compact cs rs)) \<le> sum_list (map nsize cs)" by simp
    from 10(2) v have hd: "\<And>d. r = New d \<Longrightarrow> nsize d \<le> nsize child" by simp
    show "sum_list (map nsize (compact (child # cs) ds)) \<le> sum_list (map nsize (child # cs))"
      using rest hd ds by (cases r) auto
  qed
qed

lemma subtractChildren_size_partial:
  "visit_subtractConnection_subtractRanges_subtractField_subtractChildren_mapChildren_dom
     (Inr (Inr (Inl (gf, n, sub, e)))) \<Longrightarrow>
   subtractChildren gf n sub e = Inr (New d, e') \<Longrightarrow> nsize d \<le> nsize n"
  using size_partial(5) by blast

termination visit
  apply (relation "inv_image (less_than <*lex*> less_than <*lex*> less_than)
    (\<lambda>x. case x of
       Inl (Inl (gf, n, sub, e)) \<Rightarrow> (nsize n, 5::nat, 0::nat)
     | Inl (Inr (Inl (gf, i, cs, sub, e))) \<Rightarrow> (nsize (Field i cs), 4, 0)
     | Inl (Inr (Inr (gf, d, same, rs, e))) \<Rightarrow> (nsize d, 3, length rs)
     | Inr (Inl (gf, i, cs, sub, e)) \<Rightarrow> (nsize (Field i cs), 4, 0)
     | Inr (Inr (Inl (gf, n, sub, e))) \<Rightarrow> (nsize n, 2, 0)
     | Inr (Inr (Inr (gf, cs, sub, e))) \<Rightarrow> (sum_list (map nsize cs), 6, length cs))")
             apply (auto simp: nsize_getChildren sum_nsize_pos dest: subtractChildren_size_partial)
  done

text \<open>
  \<open>subtractRelayQuery(minuend, subtrahend)\<close>: the visitor runs with \<open>isEmpty = true\<close>;
  when the state is left not empty the result must be a Root (\<open>null instanceof Root\<close> is
  false), otherwise \<open>null\<close> is returned.
\<close>

definition instanceofRoot :: "node \<Rightarrow> diff \<Rightarrow> bool" where
  "instanceofRoot n diff = (case resolve n diff of None \<Rightarrow> False | Some d \<Rightarrow> isRoot d)"

definition subtractRelayQuery :: "getField \<Rightarrow> node \<Rightarrow> node \<Rightarrow> error + diff" where
  "subtractRelayQuery gf minuend subtrahend =
     (case visit gf minuend subtrahend True of
        Inl e \<Rightarrow> Inl e
      | Inr (diff, isEmpty) \<Rightarrow>
          if \<not> isEmpty then
            (if instanceofRoot minuend diff then Inr diff else Inl expectedRoot)
          else Inr Null)"

section \<open>What a result of the visitor looks like\<close>

text \<open>
  \<open>reduct d n\<close>: \<open>d\<close> is \<open>n\<close> with some subtrees removed; the nodes that remain keep
  their class, their getters and their order.
\<close>

inductive reduct :: "node \<Rightarrow> node \<Rightarrow> bool" and reducts :: "node list \<Rightarrow> node list \<Rightarrow> bool" where
  reduct_Root: "reducts ds cs \<Longrightarrow> reduct (Root f a ds) (Root f a cs)"
| reduct_Fragment: "reducts ds cs \<Longrightarrow> reduct (Fragment ds) (Fragment cs)"
| reduct_Field: "reducts ds cs \<Longrightarrow> reduct (Field i ds) (Field i cs)"
| reducts_Nil: "reducts [] []"
| reducts_drop: "reducts ds cs \<Longrightarrow> reducts ds (c # cs)"
| reducts_keep: "reduct d c \<Longrightarrow> reducts ds cs \<Longrightarrow> reducts (d # ds) (c # cs)"

inductive_cases reduct_RootE: "reduct a (Root f x cs)"
inductive_cases reduct_FragmentE: "reduct a (Fragment cs)"
inductive_cases reduct_FieldE: "reduct a (Field i cs)"
inductive_cases reducts_NilE: "reducts as []"
inductive_cases reducts_ConsE: "reducts as (c # cs)"

lemma reduct_refl_aux: "reduct n n \<and> reducts (getChildren n) (getChildren n)"
proof (induction n rule: nsize.induct)
  case (1 f a cs)
  have "reducts cs cs" using 1 by (induction cs) (auto intro: reduct_reducts.intros)
  then show ?case by (auto intro: reduct_reducts.intros)
next
  case (2 cs)
  have "reducts cs cs" using 2 by (induction cs) (auto intro: reduct_reducts.intros)
  then show ?case by (auto intro: reduct_reducts.intros)
next
  case (3 i cs)
  have "reducts cs cs" using 3 by (induction cs) (auto intro: reduct_reducts.intros)
  then show ?case by (auto intro: reduct_reducts.intros)
qed

lemma reduct_refl: "reduct n n"
  using reduct_refl_aux by blast

lemma reduct_trans_aux:
  "(reduct b c \<longrightarrow> (\<forall>a. reduct a b \<longrightarrow> reduct a c)) \<and>
   (reducts bs cs \<longrightarrow> (\<forall>as. reducts as bs \<longrightarrow> reducts as cs))"
proof (induction rule: reduct_reducts.induct)
  case (reduct_Root ds cs f a)
  then show ?case by (auto elim!: reduct_RootE intro: reduct_reducts.intros)
next
  case (reduct_Fragment ds cs)
  then show ?case by (auto elim!: reduct_FragmentE intro: reduct_reducts.intros)
next
  case (reduct_Field ds cs i)
  then show ?case by (auto elim!: reduct_FieldE intro: reduct_reducts.intros)
next
  case reducts_Nil
  then show ?case by (auto elim!: reducts_NilE intro: reduct_reducts.intros)
next
  case (reducts_drop ds cs c)
  then show ?case by (auto intro: reduct_reducts.intros)
next
  case (reducts_keep d c ds cs)
  then show ?case by (auto elim!: reducts_ConsE intro: reduct_reducts.intros)
qed


lemma reduct_trans: "reduct a b \<Longrightarrow> reduct b c \<Longrightarrow> reduct a c"
  using reduct_trans_aux by blast

lemma reduct_withChildren: "reducts ds (getChildren n) \<Longrightarrow> reduct (withChildren n ds) n"
  by (cases n) (auto intro: reduct_reducts.intros)

definition okDiff :: "node \<Rightarrow> diff \<Rightarrow> bool" where
  "okDiff n r = (case r of New d \<Rightarrow> reduct d n \<and> nsize d < nsize n | _ \<Rightarrow> True)"

lemma okDiff_simps [simp]:
  "okDiff n Null" "okDiff n Same" "okDiff n (New d) = (reduct d n \<and> nsize d < nsize n)"
  by (simp_all add: okDiff_def)

fun okDiffs :: "node list \<Rightarrow> diff list \<Rightarrow> bool" where
  "okDiffs [] [] = True"
| "okDiffs (c # cs) (r # rs) = (okDiff c r \<and> okDiffs cs rs)"
| "okDiffs cs rs = False"

lemma okDiffs_reducts: "okDiffs cs rs \<Longrightarrow> reducts (compact cs rs) cs"
proof (induction cs rs rule: okDiffs.induct)
  case (2 c cs r rs)
  then show ?case
    by (cases r) (auto intro: reduct_reducts.intros reduct_refl)
qed (auto intro: reduct_reducts.intros)

lemma okDiffs_size: "okDiffs cs rs \<Longrightarrow> sum_list (map nsize (compact cs rs)) \<le> sum_list (map nsize cs)"
proof (induction cs rs rule: okDiffs.induct)
  case (2 c cs r rs)
  then show ?case by (cases r) auto
qed auto

lemma okDiffs_size_strict:
  "okDiffs cs rs \<Longrightarrow> \<not> list_all (\<lambda>r. r = Same) rs \<Longrightarrow>
   sum_list (map nsize (compact cs rs)) < sum_list (map nsize cs)"
proof (induction cs rs rule: okDiffs.induct)
  case (2 c cs r rs)
  then show ?case
    using okDiffs_size[of cs rs] nsize_pos[of c] by (cases r) auto
qed auto

lemma clone_ok: "okDiffs (getChildren n) rs \<Longrightarrow> okDiff n (clone n rs)"
  using okDiffs_size_strict[of "getChildren n" rs] okDiffs_reducts[of "getChildren n" rs]
  by (auto simp: clone_def Let_def nsize_withChildren nsize_getChildren[of n] reduct_withChildren)


declare visit.simps [simp del] subtractConnection.simps [simp del] subtractField.simps [simp del]
  subtractChildren.simps [simp del] subtractRanges.simps [simp del] mapChildren.simps [simp del]

lemma visit_ok_aux:
  "(\<forall>x e'. visit gf n sub e = Inr (x, e') \<longrightarrow> okDiff n x)"
  "(\<forall>x e'. subtractConnection gf i cs sub e = Inr (x, e') \<longrightarrow> okDiff (Field i cs) x)"
  "(\<forall>x e'. subtractRanges gf d0 same rs e = Inr (x, e') \<longrightarrow>
      (case x of New d \<Rightarrow> reduct d d0 \<and> (if same then nsize d < nsize d0 else nsize d \<le> nsize d0) | _ \<Rightarrow> True))"
  "(\<forall>x e'. subtractField gf i cs sub e = Inr (x, e') \<longrightarrow> okDiff (Field i cs) x)"
  "(\<forall>x e'. subtractChildren gf n sub e = Inr (x, e') \<longrightarrow> okDiff n x)"
  "(\<forall>xs e'. mapChildren gf ks sub e = Inr (xs, e') \<longrightarrow> okDiffs ks xs)"
proof (induction gf n sub e and gf i cs sub e and gf d0 same rs e and gf i cs sub e and gf n sub e
    and gf ks sub e
    rule: visit_subtractConnection_subtractRanges_subtractField_subtractChildren_mapChildren.induct)
  case (1 gf f a cs subtrahend isEmpty)
  then show ?case by (auto simp: visit.simps split: if_splits)
next
  case (2 gf cs subtrahend isEmpty)
  then show ?case by (auto simp: visit.simps)
next
  case (3 gf i cs subtrahend isEmpty)
  then show ?case
    by (auto simp: visit.simps subtractScalar_def Let_def split: if_splits sum.splits prod.splits)
next
  case (4 gf i cs subtrahend isEmpty)
  then show ?case
    by (auto simp: subtractConnection.simps Let_def split: if_splits diff.splits)
next
  case (5 gf d same isEmpty)
  then show ?case by (auto simp: subtractRanges.simps reduct_refl)
next
  case (6 gf d same r rs isEmpty)
  show ?case
  proof (intro allI impI)
    fix x e'
    assume eq: "subtractRanges gf d same (r # rs) isEmpty = Inr (x, e')"
    then obtain y fe where sc: "subtractChildren gf d r True = Inr (y, fe)"
      by (auto simp: subtractRanges.simps split: sum.splits prod.splits)
    from 6(1) sc have oky: "okDiff d y" by simp
    show "case x of New d' \<Rightarrow> reduct d' d \<and> (if same then nsize d' < nsize d else nsize d' \<le> nsize d) | _ \<Rightarrow> True"
    proof (cases y)
      case Null
      with eq sc show ?thesis by (simp add: subtractRanges.simps)
    next
      case Same
      with eq sc have "subtractRanges gf d same rs fe = Inr (x, e')"
        by (simp add: subtractRanges.simps)
      with 6(2)[OF sc refl Same] show ?thesis by simp
    next
      case (New d1)
      with eq sc have rec: "subtractRanges gf d1 False rs fe = Inr (x, e')"
        by (simp add: subtractRanges.simps)
      from oky New have d1: "reduct d1 d" "nsize d1 < nsize d" by simp_all
      from 6(3)[OF sc refl New] rec
      have "case x of New d' \<Rightarrow> reduct d' d1 \<and> nsize d' \<le> nsize d1 | _ \<Rightarrow> True"
        by (cases x) simp_all
      with d1 show ?thesis by (cases x) (auto intro: reduct_trans)
    qed
  qed
next
  case (7 gf i cs subtrahend isEmpty)
  then show ?case by (auto simp: subtractField.simps split: option.splits)
next
  case (8 gf n subtrahend isEmpty)
  then show ?case
    by (auto simp: subtractChildren.simps clone_ok split: sum.splits prod.splits)
next
  case (9 gf subtrahend isEmpty)
  then show ?case by (auto simp: mapChildren.simps)
next
  case (10 gf child cs subtrahend isEmpty)
  then show ?case
    by (auto simp: mapChildren.simps split: sum.splits prod.splits)
qed


fun rootFree :: "node \<Rightarrow> bool" where
  "rootFree (Root f a cs) = False"
| "rootFree (Fragment cs) = list_all rootFree cs"
| "rootFree (Field i cs) = list_all rootFree cs"

lemma reduct_rootFree_aux:
  "(reduct d n \<longrightarrow> (rootFree n \<longrightarrow> rootFree d) \<and> (list_all rootFree (getChildren n) \<longrightarrow> list_all rootFree (getChildren d)) \<and> isRoot d = isRoot n) \<and>
   (reducts ds cs \<longrightarrow> list_all rootFree cs \<longrightarrow> list_all rootFree ds)"
  by (induction rule: reduct_reducts.induct) auto

lemma reduct_rootFree: "reduct d n \<Longrightarrow> rootFree n \<Longrightarrow> rootFree d"
  using reduct_rootFree_aux by blast

lemma reduct_children_rootFree:
  "reduct d n \<Longrightarrow> list_all rootFree (getChildren n) \<Longrightarrow> list_all rootFree (getChildren d)"
  using reduct_rootFree_aux by blast

lemma reduct_isRoot: "reduct d n \<Longrightarrow> isRoot d = isRoot n"
  using reduct_rootFree_aux by blast

lemma visit_total_aux:
  "rootFree n \<longrightarrow> (\<exists>x e'. visit gf n sub e = Inr (x, e'))"
  "list_all rootFree cs \<longrightarrow> (\<exists>x e'. subtractConnection gf i cs sub e = Inr (x, e'))"
  "list_all rootFree (getChildren d0) \<longrightarrow> (\<exists>x e'. subtractRanges gf d0 same rs e = Inr (x, e'))"
  "list_all rootFree cs \<longrightarrow> (\<exists>x e'. subtractField gf i cs sub e = Inr (x, e'))"
  "list_all rootFree (getChildren n) \<longrightarrow> (\<exists>x e'. subtractChildren gf n sub e = Inr (x, e'))"
  "list_all rootFree ks \<longrightarrow> (\<exists>xs e'. mapChildren gf ks sub e = Inr (xs, e'))"
proof (induction gf n sub e and gf i cs sub e and gf d0 same rs e and gf i cs sub e and gf n sub e
    and gf ks sub e
    rule: visit_subtractConnection_subtractRanges_subtractField_subtractChildren_mapChildren.induct)
  case (1 gf f a cs subtrahend isEmpty)
  then show ?case by simp
next
  case (2 gf cs subtrahend isEmpty)
  then show ?case by (auto simp: visit.simps)
next
  case (3 gf i cs subtrahend isEmpty)
  show ?case
  proof
    assume rf: "rootFree (Field i cs)"
    then have cs: "list_all rootFree cs" by simp
    consider (scalar) "\<not> canHaveSubselections i"
      | (conn) "canHaveSubselections i" "isConnection i"
      | (plain) "canHaveSubselections i" "\<not> isConnection i" by blast
    then show "\<exists>x e'. visit gf (Field i cs) subtrahend isEmpty = Inr (x, e')"
    proof cases
      case scalar
      then show ?thesis by (auto simp: visit.simps split: prod.splits)
    next
      case conn
      with 3(1) cs obtain x e' where "subtractConnection gf i cs subtrahend isEmpty = Inr (x, e')"
        by auto
      with conn show ?thesis by (auto simp: visit.simps)
    next
      case plain
      with 3(2) cs obtain x e' where "subtractField gf i cs subtrahend isEmpty = Inr (x, e')"
        by auto
      with plain show ?thesis by (auto simp: visit.simps)
    qed
  qed
next
  case (4 gf i cs subtrahend isEmpty)
  then show ?case by (auto simp: subtractConnection.simps Let_def)
next
  case (5 gf d same isEmpty)
  then show ?case by (auto simp: subtractRanges.simps)
next
  case (6 gf d same r rs isEmpty)
  show ?case
  proof
    assume rf: "list_all rootFree (getChildren d)"
    with 6(1) obtain y fe where sc: "subtractChildren gf d r True = Inr (y, fe)" by auto
    show "\<exists>x e'. subtractRanges gf d same (r # rs) isEmpty = Inr (x, e')"
    proof (cases y)
      case Null
      with sc show ?thesis by (simp add: subtractRanges.simps)
    next
      case Same
      with 6(2)[OF sc refl Same] rf sc show ?thesis by (simp add: subtractRanges.simps)
    next
      case (New d1)
      from visit_ok_aux(5)[of gf d r True] sc New have "reduct d1 d" by simp
      with rf have "list_all rootFree (getChildren d1)" by (simp add: reduct_children_rootFree)
      with 6(3)[OF sc refl New] sc New show ?thesis by (simp add: subtractRanges.simps)
    qed
  qed
next
  case (7 gf i cs subtrahend isEmpty)
  then show ?case by (auto simp: subtractField.simps split: option.splits)
next
  case (8 gf n subtrahend isEmpty)
  then show ?case by (auto simp: subtractChildren.simps)
next
  case (9 gf subtrahend isEmpty)
  then show ?case by (auto simp: mapChildren.simps)
next
  case (10 gf child cs subtrahend isEmpty)
  show ?case
  proof
    assume rf: "list_all rootFree (child # cs)"
    with 10(1) obtain x ce where v: "visit gf child subtrahend True = Inr (x, ce)" by auto
    from 10(2)[OF v refl] rf obtain xs e' where
      "mapChildren gf cs subtrahend (isEmpty \<and> ce) = Inr (xs, e')" by auto
    with v show "\<exists>xs e'. mapChildren gf (child # cs) subtrahend isEmpty = Inr (xs, e')"
      by (simp add: mapChildren.simps)
  qed
qed


definition emptyOf :: "node \<Rightarrow> diff \<Rightarrow> bool" where
  "emptyOf n x = (case resolve n x of None \<Rightarrow> True | Some d \<Rightarrow> isEmptyField d)"

definition childrenEmptyOf :: "node \<Rightarrow> diff \<Rightarrow> bool" where
  "childrenEmptyOf n x =
     (case resolve n x of None \<Rightarrow> True | Some d \<Rightarrow> list_all isEmptyField (getChildren d))"

lemma compact_all_Same:
  "list_all (\<lambda>r. r = Same) rs \<Longrightarrow> length rs = length cs \<Longrightarrow> compact cs rs = cs"
  by (induction cs rs rule: compact.induct) auto

lemma okDiffs_length: "okDiffs cs rs \<Longrightarrow> length rs = length cs"
  by (induction cs rs rule: okDiffs.induct) auto

lemma getChildren_withChildren [simp]: "getChildren (withChildren n ds) = ds"
  by (cases n) simp_all

lemma clone_childrenEmpty:
  "length rs = length (getChildren n) \<Longrightarrow>
   childrenEmptyOf n (clone n rs) = list_all isEmptyField (compact (getChildren n) rs)"
  by (auto simp: childrenEmptyOf_def clone_def Let_def compact_all_Same)

fun composite :: "node \<Rightarrow> bool" where
  "composite (Field i cs) = canHaveSubselections i"
| "composite n = True"

lemma isEmptyField_composite: "composite n \<Longrightarrow> isEmptyField n = list_all isEmptyField (getChildren n)"
  by (cases n) simp_all

lemma reduct_composite: "reduct d n \<Longrightarrow> composite d = composite n"
  by (induction rule: reduct_reducts.inducts(1)) simp_all

lemma emptyOf_composite:
  "composite n \<Longrightarrow> okDiff n x \<Longrightarrow> emptyOf n x = childrenEmptyOf n x"
  by (cases x) (auto simp: emptyOf_def childrenEmptyOf_def isEmptyField_composite reduct_composite)

lemma subtractRanges_False_not_Same:
  "subtractRanges gf d False rs e = Inr (x, e') \<Longrightarrow> x \<noteq> Same"
proof (induction rs arbitrary: d e)
  case Nil
  then show ?case by (auto simp: subtractRanges.simps)
next
  case (Cons r rs)
  then show ?case
    by (auto simp: subtractRanges.simps split: sum.splits prod.splits diff.splits)
qed

lemma visit_empty_aux:
  "rootFree n \<longrightarrow> (\<forall>x e'. visit gf n sub e = Inr (x, e') \<longrightarrow> e \<longrightarrow> e' = emptyOf n x)"
  "list_all rootFree cs \<longrightarrow>
     (\<forall>x e'. subtractConnection gf i cs sub e = Inr (x, e') \<longrightarrow> canHaveSubselections i \<longrightarrow>
        e' = childrenEmptyOf (Field i cs) x)"
  "list_all rootFree (getChildren d0) \<longrightarrow>
     (\<forall>x e'. subtractRanges gf d0 same rs e = Inr (x, e') \<longrightarrow>
        (rs = [] \<longrightarrow> e = list_all isEmptyField (getChildren d0)) \<longrightarrow>
        e' = (case x of Null \<Rightarrow> True | Same \<Rightarrow> list_all isEmptyField (getChildren d0)
              | New d \<Rightarrow> list_all isEmptyField (getChildren d)))"
  "list_all rootFree cs \<longrightarrow>
     (\<forall>x e'. subtractField gf i cs sub e = Inr (x, e') \<longrightarrow> canHaveSubselections i \<longrightarrow>
        e' = childrenEmptyOf (Field i cs) x)"
  "list_all rootFree (getChildren n) \<longrightarrow>
     (\<forall>x e'. subtractChildren gf n sub e = Inr (x, e') \<longrightarrow> e' = (e \<and> childrenEmptyOf n x))"
  "list_all rootFree ks \<longrightarrow>
     (\<forall>xs e'. mapChildren gf ks sub e = Inr (xs, e') \<longrightarrow>
        e' = (e \<and> list_all isEmptyField (compact ks xs)))"
proof (induction gf n sub e and gf i cs sub e and gf d0 same rs e and gf i cs sub e and gf n sub e
    and gf ks sub e
    rule: visit_subtractConnection_subtractRanges_subtractField_subtractChildren_mapChildren.induct)
  case (1 gf f a cs subtrahend isEmpty)
  then show ?case by simp
next
  case (2 gf cs subtrahend isEmpty)
  show ?case
  proof (intro impI allI)
    fix x e'
    assume rf: "rootFree (Fragment cs)" and eq: "visit gf (Fragment cs) subtrahend isEmpty = Inr (x, e')"
      and e: isEmpty
    from eq have sc: "subtractChildren gf (Fragment cs) subtrahend isEmpty = Inr (x, e')"
      by (simp add: visit.simps)
    from visit_ok_aux(5)[of gf "Fragment cs" subtrahend isEmpty] sc
    have ok: "okDiff (Fragment cs) x" by simp
    from 2 rf sc e have "e' = childrenEmptyOf (Fragment cs) x" by simp
    with ok show "e' = emptyOf (Fragment cs) x" by (simp add: emptyOf_composite)
  qed
next
  case (3 gf i cs subtrahend isEmpty)
  show ?case
  proof (intro impI allI)
    fix x e'
    assume rf: "rootFree (Field i cs)" and eq: "visit gf (Field i cs) subtrahend isEmpty = Inr (x, e')"
      and e: isEmpty
    from rf have cs: "list_all rootFree cs" by simp
    consider (scalar) "\<not> canHaveSubselections i"
      | (conn) "canHaveSubselections i" "isConnection i"
      | (plain) "canHaveSubselections i" "\<not> isConnection i" by blast
    then show "e' = emptyOf (Field i cs) x"
    proof cases
      case scalar
      with eq e show ?thesis
        by (auto simp: visit.simps subtractScalar_def Let_def emptyOf_def split: if_splits)
    next
      case conn
      with eq obtain x1 where s1: "subtractConnection gf i cs subtrahend isEmpty = Inr (x1, e')"
        and x: "x = (if x1 \<noteq> Null \<and> (isRequisite i \<or> \<not> e') then x1 else Null)"
        by (auto simp: visit.simps split: sum.splits prod.splits if_splits)
      from visit_ok_aux(2)[of gf i cs subtrahend isEmpty] s1 have ok: "okDiff (Field i cs) x1" by simp
      from 3(1) conn cs s1 have "e' = childrenEmptyOf (Field i cs) x1" by simp
      with ok conn have "e' = emptyOf (Field i cs) x1" by (simp add: emptyOf_composite)
      with x show ?thesis by (auto simp: emptyOf_def)
    next
      case plain
      with eq obtain x1 where s1: "subtractField gf i cs subtrahend isEmpty = Inr (x1, e')"
        and x: "x = (if x1 \<noteq> Null \<and> (isRequisite i \<or> \<not> e') then x1 else Null)"
        by (auto simp: visit.simps split: sum.splits prod.splits if_splits)
      from visit_ok_aux(4)[of gf i cs subtrahend isEmpty] s1 have ok: "okDiff (Field i cs) x1" by simp
      from 3(2) plain cs s1 have "e' = childrenEmptyOf (Field i cs) x1" by simp
      with ok plain have "e' = emptyOf (Field i cs) x1" by (simp add: emptyOf_composite)
      with x show ?thesis by (auto simp: emptyOf_def)
    qed
  qed
next
  case (4 gf i cs subtrahend isEmpty)
  show ?case
  proof (intro impI allI)
    fix x e'
    assume rf: "list_all rootFree cs"
      and eq: "subtractConnection gf i cs subtrahend isEmpty = Inr (x, e')"
      and comp: "canHaveSubselections i"
    show "e' = childrenEmptyOf (Field i cs) x"
    proof (cases "getMatchingRangeFields i subtrahend = []")
      case True
      with eq comp show ?thesis
        by (auto simp: subtractConnection.simps Let_def childrenEmptyOf_def)
    next
      case False
      with eq have sr: "subtractRanges gf (Field i cs) True (getMatchingRangeFields i subtrahend) isEmpty = Inr (x, e')"
        by (simp add: subtractConnection.simps Let_def)
      from 4[OF refl False] rf sr False
      show ?thesis by (cases x) (auto simp: childrenEmptyOf_def)
    qed
  qed
next
  case (5 gf d same isEmpty)
  then show ?case by (auto simp: subtractRanges.simps)
next
  case (6 gf d same r rs isEmpty)
  show ?case
  proof (intro impI allI)
    fix x e'
    assume rf: "list_all rootFree (getChildren d)"
      and eq: "subtractRanges gf d same (r # rs) isEmpty = Inr (x, e')"
    from eq obtain y fe where sc: "subtractChildren gf d r True = Inr (y, fe)"
      by (auto simp: subtractRanges.simps split: sum.splits prod.splits)
    from 6(1) rf sc have fe: "fe = childrenEmptyOf d y" by simp
    from visit_ok_aux(5)[of gf d r True] sc have ok: "okDiff d y" by simp
    show "e' = (case x of Null \<Rightarrow> True | Same \<Rightarrow> list_all isEmptyField (getChildren d)
              | New d \<Rightarrow> list_all isEmptyField (getChildren d))"
    proof (cases y)
      case Null
      with eq sc fe show ?thesis by (simp add: subtractRanges.simps childrenEmptyOf_def)
    next
      case Same
      with eq sc have rec: "subtractRanges gf d same rs fe = Inr (x, e')"
        by (simp add: subtractRanges.simps)
      from fe Same have "fe = list_all isEmptyField (getChildren d)"
        by (simp add: childrenEmptyOf_def)
      with 6(2)[OF sc refl Same] rf rec show ?thesis by simp
    next
      case (New d1)
      with eq sc have rec: "subtractRanges gf d1 False rs fe = Inr (x, e')"
        by (simp add: subtractRanges.simps)
      from ok New have red: "reduct d1 d" by simp
      with rf have rf1: "list_all rootFree (getChildren d1)" by (simp add: reduct_children_rootFree)
      from fe New have fe1: "fe = list_all isEmptyField (getChildren d1)"
        by (simp add: childrenEmptyOf_def)
      from rec have nosame: "x \<noteq> Same" by (rule subtractRanges_False_not_Same)
      from 6(3)[OF sc refl New] rf1 rec fe1
      have "e' = (case x of Null \<Rightarrow> True | Same \<Rightarrow> list_all isEmptyField (getChildren d1)
              | New d \<Rightarrow> list_all isEmptyField (getChildren d))" by simp
      with nosame show ?thesis by (cases x) simp_all
    qed
  qed
next
  case (7 gf i cs subtrahend isEmpty)
  show ?case
  proof (intro impI allI)
    fix x e'
    assume rf: "list_all rootFree cs"
      and eq: "subtractField gf i cs subtrahend isEmpty = Inr (x, e')"
      and comp: "canHaveSubselections i"
    show "e' = childrenEmptyOf (Field i cs) x"
    proof (cases "gf subtrahend (Field i cs)")
      case None
      with eq comp show ?thesis by (auto simp: subtractField.simps childrenEmptyOf_def)
    next
      case (Some subField)
      with eq have "subtractChildren gf (Field i cs) subField True = Inr (x, e')"
        by (simp add: subtractField.simps)
      with 7[OF Some] rf show ?thesis by simp
    qed
  qed
next
  case (8 gf n subtrahend isEmpty)
  show ?case
  proof (intro impI allI)
    fix x e'
    assume rf: "list_all rootFree (getChildren n)"
      and eq: "subtractChildren gf n subtrahend isEmpty = Inr (x, e')"
    from eq obtain xs where m: "mapChildren gf (getChildren n) subtrahend isEmpty = Inr (xs, e')"
      and x: "x = clone n xs"
      by (auto simp: subtractChildren.simps split: sum.splits prod.splits)
    from visit_ok_aux(6)[of gf "getChildren n" subtrahend isEmpty] m
    have "length xs = length (getChildren n)" by (simp add: okDiffs_length)
    with 8 rf m x show "e' = (isEmpty \<and> childrenEmptyOf n x)"
      by (simp add: clone_childrenEmpty)
  qed
next
  case (9 gf subtrahend isEmpty)
  then show ?case by (auto simp: mapChildren.simps)
next
  case (10 gf child cs subtrahend isEmpty)
  show ?case
  proof (intro impI allI)
    fix xs e'
    assume rf: "list_all rootFree (child # cs)"
      and eq: "mapChildren gf (child # cs) subtrahend isEmpty = Inr (xs, e')"
    from eq obtain x ce ys where v: "visit gf child subtrahend True = Inr (x, ce)"
      and m: "mapChildren gf cs subtrahend (isEmpty \<and> ce) = Inr (ys, e')" and xs: "xs = x # ys"
      by (auto simp: mapChildren.simps split: sum.splits prod.splits)
    from 10(1) rf v have ce: "ce = emptyOf child x" by simp
    from 10(2)[OF v refl] rf m have "e' = ((isEmpty \<and> ce) \<and> list_all isEmptyField (compact cs ys))"
      by simp
    with ce xs show "e' = (isEmpty \<and> list_all isEmptyField (compact (child # cs) xs))"
      by (cases x) (auto simp: emptyOf_def)
  qed
qed

fun scalarField :: "node \<Rightarrow> bool" where
  "scalarField (Field i cs) = (\<not> canHaveSubselections i)"
| "scalarField n = False"

fun requisite :: "node \<Rightarrow> bool" where
  "requisite (Field i cs) = isRequisite i"
| "requisite n = False"

lemma visit_scalar:
  "scalarField c \<Longrightarrow>
   visit gf c s True =
     Inr (if gf s c \<noteq> None \<and> \<not> requisite c then (Null, True)
          else if requisite c \<or> \<not> isEmptyField c then (Same, isEmptyField c)
          else (Null, isEmptyField c))"
  by (cases c) (auto simp: visit.simps subtractScalar_def Let_def)

lemma scalar_nonreq_not_empty: "scalarField c \<Longrightarrow> \<not> requisite c \<Longrightarrow> \<not> isEmptyField c"
  by (cases c) auto

lemma visit_New_composite:
  "visit gf n s e = Inr (New d, e') \<Longrightarrow> composite n"
  by (cases n) (auto simp: visit.simps subtractScalar_def Let_def split: if_splits)

lemma reduct_scalarField: "reduct d n \<Longrightarrow> scalarField d = scalarField n"
  by (induction rule: reduct_reducts.inducts(1)) simp_all

lemma scalar_not_composite: "scalarField c \<Longrightarrow> \<not> composite c"
  by (cases c) auto

lemma mapChildren_scalar_kept:
  "mapChildren gf cs s e = Inr (xs, e') \<Longrightarrow> scalarField c \<Longrightarrow>
   (c \<in> set (compact cs xs)) = (c \<in> set cs \<and> (requisite c \<or> gf s c = None))"
proof (induction cs arbitrary: xs e)
  case Nil
  then show ?case by (simp add: mapChildren.simps)
next
  case (Cons h cs)
  from Cons.prems(1) obtain x ce ys where v: "visit gf h s True = Inr (x, ce)"
    and m: "mapChildren gf cs s (e \<and> ce) = Inr (ys, e')" and xs: "xs = x # ys"
    by (auto simp: mapChildren.simps split: sum.splits prod.splits)
  from Cons.IH[OF m Cons.prems(2)]
  have ih: "(c \<in> set (compact cs ys)) = (c \<in> set cs \<and> (requisite c \<or> gf s c = None))" .
  show ?case
  proof (cases "h = c")
    case True
    with v Cons.prems(2) have "x = (if gf s c \<noteq> None \<and> \<not> requisite c then Null else Same)"
      using scalar_nonreq_not_empty[of c] by (auto simp: visit_scalar split: if_splits)
    with True ih xs show ?thesis by auto
  next
    case False
    have "x \<noteq> New c"
    proof
      assume xc: "x = New c"
      with v have "composite h" by (auto dest: visit_New_composite)
      moreover from visit_ok_aux(1)[of gf h s True] v xc have "reduct c h" by simp
      ultimately show False using Cons.prems(2)
        by (auto simp: reduct_composite dest: scalar_not_composite)
    qed
    with False ih xs show ?thesis by (cases x) auto
  qed
qed

lemma visit_total: "rootFree n \<Longrightarrow> \<exists>x e'. visit gf n sub e = Inr (x, e')"
  using visit_total_aux(1) by blast

lemma subtractChildren_total:
  "list_all rootFree (getChildren n) \<Longrightarrow> \<exists>x e'. subtractChildren gf n sub e = Inr (x, e')"
  using visit_total_aux(5) by blast

lemma subtractChildren_ok: "subtractChildren gf n sub e = Inr (x, e') \<Longrightarrow> okDiff n x"
  using visit_ok_aux(5) by blast

lemma subtractChildren_empty:
  "list_all rootFree (getChildren n) \<Longrightarrow> subtractChildren gf n sub e = Inr (x, e') \<Longrightarrow>
   e' = (e \<and> childrenEmptyOf n x)"
  using visit_empty_aux(5) by blast

lemma visit_empty: "rootFree n \<Longrightarrow> visit gf n sub True = Inr (x, e') \<Longrightarrow> e' = emptyOf n x"
  using visit_empty_aux(1) by blast

lemma visit_ok: "visit gf n sub e = Inr (x, e') \<Longrightarrow> okDiff n x"
  using visit_ok_aux(1) by blast

lemma subtract_root_cases:
  assumes rf: "list_all rootFree cs" and s: "isRoot s"
  obtains
    (mismatch) "\<not> canSubtractRoot (Root f a cs) s" "subtractRelayQuery gf (Root f a cs) s = Inr Same"
  | (overlap) xs e' where "canSubtractRoot (Root f a cs) s"
      "mapChildren gf cs s True = Inr (xs, e')"
      "e' = list_all isEmptyField (compact cs xs)"
      "length xs = length cs"
      "okDiff (Root f a cs) (clone (Root f a cs) xs)"
      "subtractRelayQuery gf (Root f a cs) s = Inr (if e' then Null else clone (Root f a cs) xs)"
proof (cases "canSubtractRoot (Root f a cs) s")
  case False
  with s have "subtractRelayQuery gf (Root f a cs) s = Inr Same"
    by (simp add: subtractRelayQuery_def visit.simps instanceofRoot_def)
  with False show ?thesis by (rule mismatch)
next
  case True
  from rf obtain x e' where sc: "subtractChildren gf (Root f a cs) s True = Inr (x, e')"
    using subtractChildren_total[of "Root f a cs" gf s True] by auto
  then obtain xs where m: "mapChildren gf cs s True = Inr (xs, e')" and x: "x = clone (Root f a cs) xs"
    by (auto simp: subtractChildren.simps split: sum.splits prod.splits)
  from visit_empty_aux(6)[of cs gf s True] rf m have e': "e' = list_all isEmptyField (compact cs xs)"
    by simp
  from visit_ok_aux(6)[of gf cs s True] m have len: "length xs = length cs"
    by (simp add: okDiffs_length)
  from sc x have ok: "okDiff (Root f a cs) (clone (Root f a cs) xs)"
    by (auto dest: subtractChildren_ok)
  have v: "visit gf (Root f a cs) s True = Inr (x, e')"
    using True s sc by (simp add: visit.simps)
  have notnull: "\<not> e' \<Longrightarrow> clone (Root f a cs) xs \<noteq> Null"
    using e' by (auto simp: clone_def Let_def)
  have "instanceofRoot (Root f a cs) x" if "\<not> e'"
  proof (cases x)
    case Null
    with notnull[OF that] x show ?thesis by simp
  next
    case Same
    then show ?thesis by (simp add: instanceofRoot_def)
  next
    case (New d)
    with subtractChildren_ok[OF sc] have "reduct d (Root f a cs)" by simp
    then have "isRoot d" by (simp add: reduct_isRoot)
    with New show ?thesis by (simp add: instanceofRoot_def)
  qed
  with v x have "subtractRelayQuery gf (Root f a cs) s = Inr (if e' then Null else clone (Root f a cs) xs)"
    by (simp add: subtractRelayQuery_def)
  with True m e' len ok show ?thesis by (rule overlap)
qed


section \<open>parseInt reads back what the string conversion of a number writes\<close>

lemma of_char_digit: "(d::nat) < 10 \<Longrightarrow> (of_char (char_of (48 + d)) :: nat) = 48 + d"
  by (simp add: of_char_of)

lemma isDigit_digit: "(d::nat) < 10 \<Longrightarrow> isDigit (char_of (48 + d))"
  by (simp add: isDigit_def of_char_digit)

lemma digitVal_digit: "(d::nat) < 10 \<Longrightarrow> digitVal (char_of (48 + d)) = d"
  by (simp add: digitVal_def of_char_digit)

lemma isWhite_not_digit: "isDigit c \<Longrightarrow> \<not> isWhite c"
  by (auto simp: isDigit_def isWhite_def)

lemma digits_props:
  "n < k \<Longrightarrow> digits k n \<noteq> [] \<and> list_all isDigit (digits k n) \<and>
     foldl (\<lambda>a c. 10 * a + digitVal c) 0 (digits k n) = n"
proof (induction k arbitrary: n)
  case 0
  then show ?case by simp
next
  case (Suc k)
  show ?case
  proof (cases "n < 10")
    case True
    then show ?thesis by (simp add: isDigit_digit digitVal_digit)
  next
    case False
    then have "n div 10 < k" using Suc.prems by simp
    have split: "10 * (n div 10) + n mod 10 = n" by simp
    from Suc.IH[OF \<open>n div 10 < k\<close>] False split show ?thesis
      by (simp add: isDigit_digit digitVal_digit)
  qed
qed

lemma parseInt_digits:
  assumes "z \<noteq> []" "list_all isDigit z" "foldl (\<lambda>a c. 10 * a + digitVal c) 0 z \<le> 2 ^ 53"
  shows "parseInt z = Integer (int (foldl (\<lambda>a c. 10 * a + digitVal c) 0 z))"
proof -
  from assms have c: "isDigit (hd z)" by (cases z) auto
  then have nw: "\<not> isWhite (hd z)" by (rule isWhite_not_digit)
  with assms(1) have dw: "dropWhile isWhite z = z" by (cases z) auto
  from c have ns: "hd z \<noteq> CHR ''-''" "hd z \<noteq> CHR ''+''" by (auto simp: isDigit_def)
  have tw: "takeWhile isDigit z = z" using assms(2) by (simp add: list_all_iff)
  show ?thesis using ns assms(1,3) by (simp add: parseInt_def Let_def dw tw roundDouble_def)
qed

lemma parseInt_minus_digits:
  assumes "z \<noteq> []" "list_all isDigit z" "foldl (\<lambda>a c. 10 * a + digitVal c) 0 z \<le> 2 ^ 53"
  shows "parseInt (CHR ''-'' # z) = Integer (- int (foldl (\<lambda>a c. 10 * a + digitVal c) 0 z))"
proof -
  have nw: "\<not> isWhite CHR ''-''" by (simp add: isWhite_def)
  have tw: "takeWhile isDigit z = z" using assms(2) by (simp add: list_all_iff)
  show ?thesis using nw assms(1,3) by (simp add: parseInt_def Let_def tw roundDouble_def)
qed

lemma parseInt_showInt:
  assumes "\<bar>i\<bar> \<le> 2 ^ 53"
  shows "parseInt (showInt i) = Integer i"
proof (cases "i < 0")
  case True
  have "nat (- i) < Suc (nat (- i))" by simp
  from digits_props[OF this] have d: "digits (Suc (nat (- i))) (nat (- i)) \<noteq> []"
    "list_all isDigit (digits (Suc (nat (- i))) (nat (- i)))"
    "foldl (\<lambda>a c. 10 * a + digitVal c) 0 (digits (Suc (nat (- i))) (nat (- i))) = nat (- i)"
    by simp_all
  from assms True have "nat (- i) \<le> 2 ^ 53" by (simp add: nat_le_iff)
  with d True show ?thesis
    by (simp add: showInt_def parseInt_minus_digits)
next
  case False
  have "nat i < Suc (nat i)" by simp
  from digits_props[OF this] have d: "digits (Suc (nat i)) (nat i) \<noteq> []"
    "list_all isDigit (digits (Suc (nat i)) (nat i))"
    "foldl (\<lambda>a c. 10 * a + digitVal c) 0 (digits (Suc (nat i)) (nat i)) = nat i"
    by simp_all
  from assms False have "nat i \<le> 2 ^ 53" by (simp add: nat_le_iff)
  with d False show ?thesis
    by (simp add: showInt_def parseInt_digits)
qed

lemma sint_safe: "\<bar>sint (w :: 54 word)\<bar> \<le> 2 ^ 53"
  using sint_ge[of w] sint_lt[of w] by simp

lemma parseInt_toStr_VNum: "parseInt (toStr (VNum w)) = Integer (sint w)"
  using parseInt_showInt[OF sint_safe] by simp

lemma countLeq_VNum: "countLeq (VNum m) (VNum n) = (sint m \<le> sint n)"
  by (simp add: countLeq_def parseInt_toStr_VNum del: toStr.simps)

text \<open>
  What \<open>parseInt\<close> reads elsewhere: it stops at the first character that is no digit,
  skips a no-break space, takes no prefix \<open>0x\<close>, gives \<open>NaN\<close> without a digit, and rounds
  an integer beyond \<open>2^53\<close> to the nearest double.
\<close>

lemma parseInt_examples:
  "parseInt ''12px'' = Integer 12"
  "parseInt ''  -7'' = Integer (- 7)"
  "parseInt (CHR 0xA0 # ''10'') = Integer 10"
  "parseInt ''1e+21'' = Integer 1"
  "parseInt ''0x10'' = Integer 0"
  "parseInt ''null'' = NaN"
  by (simp_all add: parseInt_def isWhite_def isDigit_def digitVal_def roundDouble_def Let_def)

lemma roundDouble_examples:
  "roundDouble 9007199254740993 = Some 9007199254740992"
  "roundDouble 9007199254740995 = Some 9007199254740996"
  by (simp_all add: roundDouble_def Let_def bits.simps)

lemma parseInt_rounds:
  "parseInt ''9007199254740993'' = Integer 9007199254740992"
  by (simp add: parseInt_def isWhite_def isDigit_def digitVal_def Let_def roundDouble_examples)

lemma countLeq_examples:
  "countLeq (VStr ''9007199254740993'') (VStr ''9007199254740992'')"
  "\<not> countLeq VNull VNull"
  "\<not> countLeq VUndefined (VNum 5)"
  using parseInt_rounds
  by (simp_all add: countLeq_def parseInt_def isWhite_def isDigit_def digitVal_def Let_def
      roundDouble_def)

lemma everyFrom_iff:
  "everyFrom k p xs = (\<forall>j < length xs. p (xs ! j) (k + j))"
proof (induction xs arbitrary: k)
  case Nil
  then show ?case by simp
next
  case (Cons x xs)
  show ?case
  proof
    assume "everyFrom k p (x # xs)"
    then have px: "p x k" and rest: "everyFrom (Suc k) p xs" by (auto split: if_splits)
    from rest Cons.IH[of "Suc k"] have r: "\<forall>j<length xs. p (xs ! j) (Suc k + j)" by simp
    show "\<forall>j<length (x # xs). p ((x # xs) ! j) (k + j)"
    proof (intro allI impI)
      fix j assume "j < length (x # xs)"
      then show "p ((x # xs) ! j) (k + j)" using px r by (cases j) auto
    qed
  next
    assume a: "\<forall>j<length (x # xs). p ((x # xs) ! j) (k + j)"
    then have px: "p x k" by auto
    have "\<forall>j<length xs. p (xs ! j) (Suc k + j)"
    proof (intro allI impI)
      fix j assume "j < length xs"
      with a have "p ((x # xs) ! Suc j) (k + Suc j)" by (metis Suc_less_eq length_Cons)
      then show "p (xs ! j) (Suc k + j)" by simp
    qed
    with Cons.IH[of "Suc k"] px show "everyFrom k p (x # xs)" by simp
  qed
qed

definition argCovered :: "call \<Rightarrow> call \<Rightarrow> bool" where
  "argCovered minArg subArg =
     (name minArg = name subArg \<and>
      (if name minArg = ''first'' \<or> name minArg = ''last''
       then numLeq (parseInt (toStr (value minArg))) (parseInt (toStr (value subArg)))
       else value minArg = value subArg))"

lemma countLeq_iff: "countLeq a b = numLeq (parseInt (toStr a)) (parseInt (toStr b))"
  by (simp add: countLeq_def)

lemma canSubtractField_iff:
  assumes "schemaName minField = schemaName subField"
  shows "canSubtractField minField subField =
     list_all2 argCovered (callsWithValues minField) (callsWithValues subField)"
proof (cases "length (callsWithValues minField) = length (callsWithValues subField)")
  case False
  with assms show ?thesis
    by (auto simp: canSubtractField_def Let_def dest: list_all2_lengthD)
next
  case True
  have "every (\<lambda>minArg ii. case at (callsWithValues subField) ii of None \<Rightarrow> False
          | Some subArg \<Rightarrow> if name minArg \<noteq> name subArg then False
              else if name minArg = ''first'' \<or> name minArg = ''last''
                then countLeq (value minArg) (value subArg)
              else value minArg = value subArg) (callsWithValues minField) =
        (\<forall>j < length (callsWithValues minField).
           argCovered (callsWithValues minField ! j) (callsWithValues subField ! j))"
  proof -
    have "(case at (callsWithValues subField) j of None \<Rightarrow> False
          | Some subArg \<Rightarrow> if name minArg \<noteq> name subArg then False
              else if name minArg = ''first'' \<or> name minArg = ''last''
                then countLeq (value minArg) (value subArg)
              else value minArg = value subArg) =
          argCovered minArg (callsWithValues subField ! j)"
      if "j < length (callsWithValues minField)" for j minArg
      using that True by (simp add: at_def argCovered_def countLeq_iff)
    then show ?thesis unfolding every_def everyFrom_iff by simp
  qed
  with assms True show ?thesis
    by (simp add: canSubtractField_def Let_def list_all2_conv_all_nth)
qed

lemma visit_error_aux:
  "(\<forall>err. visit gf n sub e = Inl err \<longrightarrow> err = nonRootSubtrahend)"
  "(\<forall>err. subtractConnection gf i cs sub e = Inl err \<longrightarrow> err = nonRootSubtrahend)"
  "(\<forall>err. subtractRanges gf d0 same rs e = Inl err \<longrightarrow> err = nonRootSubtrahend)"
  "(\<forall>err. subtractField gf i cs sub e = Inl err \<longrightarrow> err = nonRootSubtrahend)"
  "(\<forall>err. subtractChildren gf n sub e = Inl err \<longrightarrow> err = nonRootSubtrahend)"
  "(\<forall>err. mapChildren gf ks sub e = Inl err \<longrightarrow> err = nonRootSubtrahend)"
proof (induction gf n sub e and gf i cs sub e and gf d0 same rs e and gf i cs sub e and gf n sub e
    and gf ks sub e
    rule: visit_subtractConnection_subtractRanges_subtractField_subtractChildren_mapChildren.induct)
  case (1 gf f a cs subtrahend isEmpty)
  then show ?case by (auto simp: visit.simps split: if_splits)
next
  case (2 gf cs subtrahend isEmpty)
  then show ?case by (auto simp: visit.simps)
next
  case (3 gf i cs subtrahend isEmpty)
  then show ?case
    by (auto simp: visit.simps split: if_splits sum.splits prod.splits)
next
  case (4 gf i cs subtrahend isEmpty)
  then show ?case by (auto simp: subtractConnection.simps Let_def split: if_splits)
next
  case (5 gf d same isEmpty)
  then show ?case by (auto simp: subtractRanges.simps)
next
  case (6 gf d same r rs isEmpty)
  then show ?case
    by (auto simp: subtractRanges.simps split: sum.splits prod.splits diff.splits)
next
  case (7 gf i cs subtrahend isEmpty)
  then show ?case by (auto simp: subtractField.simps split: option.splits)
next
  case (8 gf n subtrahend isEmpty)
  then show ?case by (auto simp: subtractChildren.simps split: sum.splits prod.splits)
next
  case (9 gf subtrahend isEmpty)
  then show ?case by (auto simp: mapChildren.simps)
next
  case (10 gf child cs subtrahend isEmpty)
  then show ?case by (auto simp: mapChildren.simps split: sum.splits prod.splits)
qed

lemma visit_error: "visit gf n sub e = Inl err \<Longrightarrow> err = nonRootSubtrahend"
  using visit_error_aux(1) by blast

section \<open>When every field of the minuend is covered\<close>

text \<open>
  \<open>covered gf p n\<close>: the node \<open>n\<close>, visited with the subtrahend \<open>p\<close>, leaves nothing
  to fetch. A field without subselections is found by the lookup, or it is requisite
  bookkeeping (requisite, unaliased, not a ref query dependency); a field with
  subselections is found and its children are covered by the field found; a connection has
  a matching range field that covers its children; the children of a fragment are covered
  by the subtrahend of the fragment. \<open>gfStable\<close>: the lookup reads the getters of the
  field it is given, not its children.
\<close>

fun covered :: "getField \<Rightarrow> node \<Rightarrow> node \<Rightarrow> bool" where
  "covered gf p (Root f a cs) = False"
| "covered gf p (Fragment cs) = list_all (covered gf p) cs"
| "covered gf p (Field i cs) =
     (if \<not> canHaveSubselections i then
        (if isRequisite i then \<not> isRefQueryDependency i \<and> applicationName i = schemaName i
         else gf p (Field i cs) \<noteq> None)
      else if isConnection i then
        list_ex (\<lambda>r. list_all (covered gf r) cs) (getMatchingRangeFields i p)
      else (case gf p (Field i cs) of
              None \<Rightarrow> False
            | Some subField \<Rightarrow> list_all (covered gf subField) cs))"

definition gfStable :: "getField \<Rightarrow> bool" where
  "gfStable gf = (\<forall>p i cs ds. gf p (Field i cs) = gf p (Field i ds))"

lemma reduct_children: "reduct d n \<Longrightarrow> reducts (getChildren d) (getChildren n)"
  by (induction rule: reduct_reducts.inducts(1)) simp_all

lemma reduct_empty_aux:
  "(reduct d n \<longrightarrow> isEmptyField n \<longrightarrow> isEmptyField d) \<and>
   (reducts ds cs \<longrightarrow> list_all isEmptyField cs \<longrightarrow> list_all isEmptyField ds)"
  by (induction rule: reduct_reducts.induct) auto

lemma reducts_empty: "reducts ds cs \<Longrightarrow> list_all isEmptyField cs \<Longrightarrow> list_all isEmptyField ds"
  using reduct_empty_aux by blast

lemma reduct_covered_aux:
  assumes st: "gfStable gf"
  shows "(reduct d n \<longrightarrow> (\<forall>p. covered gf p n \<longrightarrow> covered gf p d)) \<and>
   (reducts ds cs \<longrightarrow> (\<forall>p. list_all (covered gf p) cs \<longrightarrow> list_all (covered gf p) ds))"
proof (induction rule: reduct_reducts.induct)
  case (reduct_Field ds cs i)
  have eq: "gf p (Field i ds) = gf p (Field i cs)" for p
    using st by (auto simp: gfStable_def)
  show ?case
  proof (intro allI impI)
    fix p assume c: "covered gf p (Field i cs)"
    consider (scalar) "\<not> canHaveSubselections i"
      | (conn) "canHaveSubselections i" "isConnection i"
      | (plain) "canHaveSubselections i" "\<not> isConnection i" by blast
    then show "covered gf p (Field i ds)"
    proof cases
      case scalar
      with c eq show ?thesis by simp
    next
      case conn
      with c reduct_Field.IH show ?thesis by (auto simp: list_ex_iff)
    next
      case plain
      with c reduct_Field.IH eq show ?thesis by (auto split: option.splits)
    qed
  qed
qed auto

lemma reducts_covered:
  "gfStable gf \<Longrightarrow> reducts ds cs \<Longrightarrow> list_all (covered gf p) cs \<Longrightarrow> list_all (covered gf p) ds"
  using reduct_covered_aux by blast

lemma subtractChildren_children_empty:
  assumes rf: "list_all rootFree (getChildren d)"
    and sc: "subtractChildren gf d r True = Inr (y, fe)"
  shows "fe = childrenEmptyOf d y"
  using subtractChildren_empty[OF rf sc] by simp

lemma covered_empty_aux:
  "gfStable gf \<and> covered gf sub n \<and> rootFree n \<longrightarrow> (\<forall>x e'. visit gf n sub e = Inr (x, e') \<longrightarrow> e \<longrightarrow> e')"
  "gfStable gf \<and> canHaveSubselections i \<and> list_all rootFree cs \<and>
     list_ex (\<lambda>r. list_all (covered gf r) cs) (getMatchingRangeFields i sub) \<longrightarrow>
     (\<forall>x e'. subtractConnection gf i cs sub e = Inr (x, e') \<longrightarrow> e')"
  "gfStable gf \<and> list_all rootFree (getChildren d0) \<and>
     (list_ex (\<lambda>r. list_all (covered gf r) (getChildren d0)) rs \<or>
      (e \<and> list_all isEmptyField (getChildren d0))) \<longrightarrow>
     (\<forall>x e'. subtractRanges gf d0 same rs e = Inr (x, e') \<longrightarrow> e')"
  "gfStable gf \<and> list_all rootFree cs \<and>
     (case gf sub (Field i cs) of None \<Rightarrow> False
      | Some subField \<Rightarrow> list_all (covered gf subField) cs) \<longrightarrow>
     (\<forall>x e'. subtractField gf i cs sub e = Inr (x, e') \<longrightarrow> e')"
  "gfStable gf \<and> list_all rootFree (getChildren n) \<and> list_all (covered gf sub) (getChildren n) \<longrightarrow>
     (\<forall>x e'. subtractChildren gf n sub e = Inr (x, e') \<longrightarrow> e \<longrightarrow> e')"
  "gfStable gf \<and> list_all rootFree ks \<and> list_all (covered gf sub) ks \<longrightarrow>
     (\<forall>xs e'. mapChildren gf ks sub e = Inr (xs, e') \<longrightarrow> e \<longrightarrow> e')"
proof (induction gf n sub e and gf i cs sub e and gf d0 same rs e and gf i cs sub e and gf n sub e
    and gf ks sub e
    rule: visit_subtractConnection_subtractRanges_subtractField_subtractChildren_mapChildren.induct)
  case (1 gf f a cs subtrahend isEmpty)
  then show ?case by simp
next
  case (2 gf cs subtrahend isEmpty)
  then show ?case by (auto simp: visit.simps)
next
  case (3 gf i cs subtrahend isEmpty)
  show ?case
  proof (intro impI allI)
    fix x e'
    assume h: "gfStable gf \<and> covered gf subtrahend (Field i cs) \<and> rootFree (Field i cs)"
      and eq: "visit gf (Field i cs) subtrahend isEmpty = Inr (x, e')" and e: isEmpty
    from h have st: "gfStable gf" and cov: "covered gf subtrahend (Field i cs)"
      and rf: "list_all rootFree cs" by simp_all
    consider (scalar) "\<not> canHaveSubselections i"
      | (conn) "canHaveSubselections i" "isConnection i"
      | (plain) "canHaveSubselections i" "\<not> isConnection i" by blast
    then show e'
    proof cases
      case scalar
      with eq e cov show ?thesis
        by (auto simp: visit.simps subtractScalar_def Let_def split: if_splits)
    next
      case conn
      with eq obtain x1 where s1: "subtractConnection gf i cs subtrahend isEmpty = Inr (x1, e')"
        by (auto simp: visit.simps split: sum.splits prod.splits if_splits)
      with 3(1) conn st cov rf show ?thesis by simp
    next
      case plain
      with eq obtain x1 where s1: "subtractField gf i cs subtrahend isEmpty = Inr (x1, e')"
        by (auto simp: visit.simps split: sum.splits prod.splits if_splits)
      with 3(2) plain st cov rf show ?thesis by simp
    qed
  qed
next
  case (4 gf i cs subtrahend isEmpty)
  show ?case
  proof (intro impI allI)
    fix x e'
    assume h: "gfStable gf \<and> canHaveSubselections i \<and> list_all rootFree cs \<and>
        list_ex (\<lambda>r. list_all (covered gf r) cs) (getMatchingRangeFields i subtrahend)"
      and eq: "subtractConnection gf i cs subtrahend isEmpty = Inr (x, e')"
    from h have ne: "getMatchingRangeFields i subtrahend \<noteq> []" by auto
    with eq have sr: "subtractRanges gf (Field i cs) True (getMatchingRangeFields i subtrahend)
        isEmpty = Inr (x, e')"
      by (simp add: subtractConnection.simps Let_def)
    from 4[OF refl ne] h sr show e' by simp
  qed
next
  case (5 gf d same isEmpty)
  then show ?case by (auto simp: subtractRanges.simps)
next
  case (6 gf d same r rs isEmpty)
  show ?case
  proof (intro impI allI)
    fix x e'
    assume h: "gfStable gf \<and> list_all rootFree (getChildren d) \<and>
        (list_ex (\<lambda>r. list_all (covered gf r) (getChildren d)) (r # rs) \<or>
         (isEmpty \<and> list_all isEmptyField (getChildren d)))"
      and eq: "subtractRanges gf d same (r # rs) isEmpty = Inr (x, e')"
    from h have st: "gfStable gf" and rf: "list_all rootFree (getChildren d)" by simp_all
    from eq obtain y fe where sc: "subtractChildren gf d r True = Inr (y, fe)"
      by (auto simp: subtractRanges.simps split: sum.splits prod.splits)
    have fe: "fe = childrenEmptyOf d y" using rf sc by (rule subtractChildren_children_empty)
    from sc have ok: "okDiff d y" by (rule subtractChildren_ok)
    have now: "fe \<or> list_ex (\<lambda>r. list_all (covered gf r) (getChildren d)) rs"
    proof (cases "list_all (covered gf r) (getChildren d)")
      case True
      with 6(1) st rf sc show ?thesis by simp
    next
      case False
      with h have "list_ex (\<lambda>r. list_all (covered gf r) (getChildren d)) rs \<or>
         list_all isEmptyField (getChildren d)" by auto
      then show ?thesis
      proof
        assume "list_all isEmptyField (getChildren d)"
        with fe ok have fe
          by (cases y) (auto simp: childrenEmptyOf_def dest: reduct_children reducts_empty)
        then show ?thesis ..
      qed simp
    qed
    show e'
    proof (cases y)
      case Null
      with eq sc fe show ?thesis by (simp add: subtractRanges.simps childrenEmptyOf_def)
    next
      case Same
      with eq sc have rec: "subtractRanges gf d same rs fe = Inr (x, e')"
        by (simp add: subtractRanges.simps)
      from fe Same have "fe = list_all isEmptyField (getChildren d)"
        by (simp add: childrenEmptyOf_def)
      with now have "list_ex (\<lambda>r. list_all (covered gf r) (getChildren d)) rs \<or>
         (fe \<and> list_all isEmptyField (getChildren d))" by auto
      with 6(2)[OF sc refl Same] st rf rec show ?thesis by simp
    next
      case (New d1)
      with eq sc have rec: "subtractRanges gf d1 False rs fe = Inr (x, e')"
        by (simp add: subtractRanges.simps)
      from ok New have red: "reduct d1 d" by simp
      then have rf1: "list_all rootFree (getChildren d1)"
        using rf by (simp add: reduct_children_rootFree)
      from fe New have fe1: "fe = list_all isEmptyField (getChildren d1)"
        by (simp add: childrenEmptyOf_def)
      from red have rc: "reducts (getChildren d1) (getChildren d)" by (rule reduct_children)
      have "list_ex (\<lambda>r. list_all (covered gf r) (getChildren d1)) rs"
        if "list_ex (\<lambda>r. list_all (covered gf r) (getChildren d)) rs"
        using that reducts_covered[OF st rc] by (auto simp: list_ex_iff)
      with now fe1 have "list_ex (\<lambda>r. list_all (covered gf r) (getChildren d1)) rs \<or>
         (fe \<and> list_all isEmptyField (getChildren d1))" by auto
      with 6(3)[OF sc refl New] st rf1 rec show ?thesis by simp
    qed
  qed
next
  case (7 gf i cs subtrahend isEmpty)
  then show ?case
    by (auto simp: subtractField.simps split: option.splits)
next
  case (8 gf n subtrahend isEmpty)
  then show ?case
    by (auto simp: subtractChildren.simps split: sum.splits prod.splits)
next
  case (9 gf subtrahend isEmpty)
  then show ?case by (auto simp: mapChildren.simps)
next
  case (10 gf child cs subtrahend isEmpty)
  show ?case
  proof (intro impI allI)
    fix xs e'
    assume h: "gfStable gf \<and> list_all rootFree (child # cs) \<and>
        list_all (covered gf subtrahend) (child # cs)"
      and eq: "mapChildren gf (child # cs) subtrahend isEmpty = Inr (xs, e')" and e: isEmpty
    from eq obtain x ce ys where v: "visit gf child subtrahend True = Inr (x, ce)"
      and m: "mapChildren gf cs subtrahend (isEmpty \<and> ce) = Inr (ys, e')"
      by (auto simp: mapChildren.simps split: sum.splits prod.splits)
    from 10(1) h v have ce by simp
    with 10(2)[OF v refl] h m e show e' by simp
  qed
qed

lemma covered_children_empty:
  "gfStable gf \<Longrightarrow> list_all rootFree (getChildren n) \<Longrightarrow>
   list_all (covered gf sub) (getChildren n) \<Longrightarrow>
   subtractChildren gf n sub True = Inr (x, e') \<Longrightarrow> e'"
  using covered_empty_aux(5)[of gf n sub True] by blast

section \<open>The uncovered part of a query\<close>

text \<open>
  What a subtrahend leaves uncovered of a node, of a list of children, and of a list of
  children subtracted from several range fields one after the other, as the amended claim
  words it. A field without subselections is covered when the subtrahend has the field
  (\<open>getField\<close>) and the field is not requisite; otherwise it is left as it is. A field with
  subselections that the subtrahend has no match for (no field for \<open>getField\<close>, and for a
  connection no range field that \<open>canSubtractField\<close> accepts) is left as it is; one with a
  match is left with what the match does not cover of its children, and with nothing when
  no child is left. What is left of a field with subselections is kept when the field is
  requisite or something in it is not empty for \<open>isEmptyField\<close>. A fragment or root is
  left with what is uncovered of its children, and with nothing when no child is left.
  The children that are left keep their order.
\<close>

definition nonEmpty :: "node list \<Rightarrow> node list option" where
  "nonEmpty ds = (if ds = [] then None else Some ds)"

definition keepField :: "field_info \<Rightarrow> node list option \<Rightarrow> node option" where
  "keepField i left =
     (case left of
        None \<Rightarrow> None
      | Some ds \<Rightarrow>
          if isRequisite i \<or> \<not> list_all isEmptyField ds then Some (Field i ds) else None)"

function
  uncovered :: "getField \<Rightarrow> node \<Rightarrow> node \<Rightarrow> node option" and
  uncoveredChildren :: "getField \<Rightarrow> node list \<Rightarrow> node \<Rightarrow> node list" and
  uncoveredRanges :: "getField \<Rightarrow> node list \<Rightarrow> node list \<Rightarrow> node list"
where
  "uncovered gf (Root f a cs) s =
     (if canSubtractRoot (Root f a cs) s
      then (let ds = uncoveredChildren gf cs s in if ds = [] then None else Some (Root f a ds))
      else Some (Root f a cs))"
| "uncovered gf (Fragment cs) s =
     (let ds = uncoveredChildren gf cs s in if ds = [] then None else Some (Fragment ds))"
| "uncovered gf (Field i cs) s =
     (if \<not> canHaveSubselections i then
        (if gf s (Field i cs) \<noteq> None \<and> \<not> isRequisite i then None else Some (Field i cs))
      else if isConnection i then
        (if getMatchingRangeFields i s = [] then keepField i (Some cs)
         else keepField i (nonEmpty (uncoveredRanges gf cs (getMatchingRangeFields i s))))
      else
        (case gf s (Field i cs) of
           None \<Rightarrow> keepField i (Some cs)
         | Some subField \<Rightarrow> keepField i (nonEmpty (uncoveredChildren gf cs subField))))"
| "uncoveredChildren gf [] s = []"
| "uncoveredChildren gf (c # cs) s =
     (case uncovered gf c s of
        None \<Rightarrow> uncoveredChildren gf cs s
      | Some d \<Rightarrow> d # uncoveredChildren gf cs s)"
| "uncoveredRanges gf cs [] = cs"
| "uncoveredRanges gf cs (r # rs) = uncoveredRanges gf (uncoveredChildren gf cs r) rs"
  by pat_completeness auto

lemma uncovered_size_partial:
  "uncovered_uncoveredChildren_uncoveredRanges_dom (Inl (gf, n, s)) \<Longrightarrow>
   (\<forall>d. uncovered gf n s = Some d \<longrightarrow> nsize d \<le> nsize n)"
  "uncovered_uncoveredChildren_uncoveredRanges_dom (Inr (Inl (gf, cs, s))) \<Longrightarrow>
   sum_list (map nsize (uncoveredChildren gf cs s)) \<le> sum_list (map nsize cs)"
  "uncovered_uncoveredChildren_uncoveredRanges_dom (Inr (Inr (gf, cs, rs))) \<Longrightarrow>
   sum_list (map nsize (uncoveredRanges gf cs rs)) \<le> sum_list (map nsize cs)"
proof (induct rule: uncovered_uncoveredChildren_uncoveredRanges.pinduct)
  case (1 gf f a cs s)
  then show ?case by (auto simp: uncovered.psimps Let_def split: if_splits)
next
  case (2 gf cs s)
  then show ?case by (auto simp: uncovered.psimps Let_def split: if_splits)
next
  case (3 gf i cs s)
  then show ?case
    by (auto simp: uncovered.psimps Let_def keepField_def nonEmpty_def
        split: if_splits option.splits)
next
  case (4 gf s)
  then show ?case by (simp add: uncoveredChildren.psimps)
next
  case (5 gf c cs s)
  then show ?case by (auto simp: uncoveredChildren.psimps split: option.splits)
next
  case (6 gf cs)
  then show ?case by (simp add: uncoveredRanges.psimps)
next
  case (7 gf cs r rs)
  then show ?case by (auto simp: uncoveredRanges.psimps)
qed

termination uncovered
  apply (relation "inv_image (less_than <*lex*> less_than <*lex*> less_than)
    (\<lambda>x. case x of
       Inl (gf, n, s) \<Rightarrow> (nsize n, 2::nat, 0::nat)
     | Inr (Inl (gf, cs, s)) \<Rightarrow> (sum_list (map nsize cs), 3, 0)
     | Inr (Inr (gf, cs, rs)) \<Rightarrow> (sum_list (map nsize cs), 4, length rs))")
          apply (auto simp: nsize_pos le_imp_less_Suc dest: uncovered_size_partial(2))
  done

text \<open>
  The visitor returns what the subtrahend leaves uncovered: a result resolves to
  \<open>uncovered\<close> of the node visited.
\<close>

declare uncovered.simps [simp del]

definition leftOf :: "node \<Rightarrow> node list \<Rightarrow> node option" where
  "leftOf n ds = (if ds = [] then None else Some (withChildren n ds))"

lemma withChildren_getChildren [simp]: "withChildren n (getChildren n) = n"
  by (cases n) simp_all

lemma withChildren_withChildren [simp]: "withChildren (withChildren n as) bs = withChildren n bs"
  by (cases n) simp_all

lemma uncoveredRanges_Nil [simp]: "uncoveredRanges gf [] rs = []"
  by (induction rs) simp_all

lemma resolve_clone:
  "length rs = length (getChildren n) \<Longrightarrow>
   resolve n (clone n rs) = leftOf n (compact (getChildren n) rs)"
  by (auto simp: clone_def Let_def leftOf_def compact_all_Same)

lemma leftOf_Same: "leftOf n ds = Some n \<Longrightarrow> ds = getChildren n"
  by (cases n) (auto simp: leftOf_def split: if_splits)

lemma visit_uncovered_aux:
  "rootFree n \<longrightarrow> (\<forall>x e'. visit gf n sub e = Inr (x, e') \<longrightarrow> resolve n x = uncovered gf n sub)"
  "list_all rootFree cs \<longrightarrow>
     (\<forall>x e'. subtractConnection gf i cs sub e = Inr (x, e') \<longrightarrow>
        resolve (Field i cs) x =
          (if getMatchingRangeFields i sub = [] then Some (Field i cs)
           else leftOf (Field i cs) (uncoveredRanges gf cs (getMatchingRangeFields i sub))))"
  "list_all rootFree (getChildren d0) \<longrightarrow>
     (\<forall>x e'. subtractRanges gf d0 same rs e = Inr (x, e') \<longrightarrow>
        resolve d0 x =
          (if rs = [] then Some d0 else leftOf d0 (uncoveredRanges gf (getChildren d0) rs)))"
  "list_all rootFree cs \<longrightarrow>
     (\<forall>x e'. subtractField gf i cs sub e = Inr (x, e') \<longrightarrow>
        resolve (Field i cs) x =
          (case gf sub (Field i cs) of
             None \<Rightarrow> Some (Field i cs)
           | Some subField \<Rightarrow> leftOf (Field i cs) (uncoveredChildren gf cs subField)))"
  "list_all rootFree (getChildren n) \<longrightarrow>
     (\<forall>x e'. subtractChildren gf n sub e = Inr (x, e') \<longrightarrow>
        resolve n x = leftOf n (uncoveredChildren gf (getChildren n) sub))"
  "list_all rootFree ks \<longrightarrow>
     (\<forall>xs e'. mapChildren gf ks sub e = Inr (xs, e') \<longrightarrow>
        compact ks xs = uncoveredChildren gf ks sub)"
proof (induction gf n sub e and gf i cs sub e and gf d0 same rs e and gf i cs sub e and gf n sub e
    and gf ks sub e
    rule: visit_subtractConnection_subtractRanges_subtractField_subtractChildren_mapChildren.induct)
  case (1 gf f a cs subtrahend isEmpty)
  then show ?case by simp
next
  case (2 gf cs subtrahend isEmpty)
  show ?case
  proof (intro impI allI)
    fix x e'
    assume rf: "rootFree (Fragment cs)"
      and eq: "visit gf (Fragment cs) subtrahend isEmpty = Inr (x, e')"
    from eq have sc: "subtractChildren gf (Fragment cs) subtrahend isEmpty = Inr (x, e')"
      by (simp add: visit.simps)
    from 2 rf sc have "resolve (Fragment cs) x =
        leftOf (Fragment cs) (uncoveredChildren gf cs subtrahend)" by simp
    then show "resolve (Fragment cs) x = uncovered gf (Fragment cs) subtrahend"
      by (simp add: uncovered.simps leftOf_def Let_def)
  qed
next
  case (3 gf i cs subtrahend isEmpty)
  show ?case
  proof (intro impI allI)
    fix x e'
    assume rf: "rootFree (Field i cs)"
      and eq: "visit gf (Field i cs) subtrahend isEmpty = Inr (x, e')"
    from rf have cs: "list_all rootFree cs" by simp
    have filter: "resolve (Field i cs) x =
        (case resolve (Field i cs) x1 of
           None \<Rightarrow> None
         | Some d \<Rightarrow> keepField i (Some (getChildren d)))"
      if x: "x = (if x1 \<noteq> Null \<and> (isRequisite i \<or> \<not> e') then x1 else Null)"
        and e': "e' = childrenEmptyOf (Field i cs) x1"
        and ok: "okDiff (Field i cs) x1" for x1
    proof (cases x1)
      case Null
      with x show ?thesis by simp
    next
      case Same
      with x e' show ?thesis by (simp add: childrenEmptyOf_def keepField_def)
    next
      case (New d)
      with ok have "reduct d (Field i cs)" by simp
      then obtain ds where d: "d = Field i ds" by (auto elim: reduct_FieldE)
      with New x e' show ?thesis by (simp add: childrenEmptyOf_def keepField_def)
    qed
    consider (scalar) "\<not> canHaveSubselections i"
      | (conn) "canHaveSubselections i" "isConnection i"
      | (plain) "canHaveSubselections i" "\<not> isConnection i" by blast
    then show "resolve (Field i cs) x = uncovered gf (Field i cs) subtrahend"
    proof cases
      case scalar
      with eq show ?thesis
        by (auto simp: visit.simps subtractScalar_def Let_def uncovered.simps split: if_splits)
    next
      case conn
      with eq obtain x1 where s1: "subtractConnection gf i cs subtrahend isEmpty = Inr (x1, e')"
        and x: "x = (if x1 \<noteq> Null \<and> (isRequisite i \<or> \<not> e') then x1 else Null)"
        by (auto simp: visit.simps split: sum.splits prod.splits if_splits)
      from visit_ok_aux(2)[of gf i cs subtrahend isEmpty] s1 have ok: "okDiff (Field i cs) x1" by simp
      from visit_empty_aux(2)[of cs gf i subtrahend isEmpty] cs s1 conn
      have e': "e' = childrenEmptyOf (Field i cs) x1" by simp
      from 3(1) conn cs s1 have r: "resolve (Field i cs) x1 =
          (if getMatchingRangeFields i subtrahend = [] then Some (Field i cs)
           else leftOf (Field i cs) (uncoveredRanges gf cs (getMatchingRangeFields i subtrahend)))"
        by simp
      from filter[OF x e' ok] r conn show ?thesis
        by (simp add: uncovered.simps leftOf_def nonEmpty_def keepField_def)
    next
      case plain
      with eq obtain x1 where s1: "subtractField gf i cs subtrahend isEmpty = Inr (x1, e')"
        and x: "x = (if x1 \<noteq> Null \<and> (isRequisite i \<or> \<not> e') then x1 else Null)"
        by (auto simp: visit.simps split: sum.splits prod.splits if_splits)
      from visit_ok_aux(4)[of gf i cs subtrahend isEmpty] s1 have ok: "okDiff (Field i cs) x1" by simp
      from visit_empty_aux(4)[of cs gf i subtrahend isEmpty] cs s1 plain
      have e': "e' = childrenEmptyOf (Field i cs) x1" by simp
      from 3(2) plain cs s1 have r: "resolve (Field i cs) x1 =
          (case gf subtrahend (Field i cs) of
             None \<Rightarrow> Some (Field i cs)
           | Some subField \<Rightarrow> leftOf (Field i cs) (uncoveredChildren gf cs subField))"
        by simp
      from filter[OF x e' ok] r plain show ?thesis
        by (simp add: uncovered.simps leftOf_def nonEmpty_def keepField_def split: option.splits)
    qed
  qed
next
  case (4 gf i cs subtrahend isEmpty)
  show ?case
  proof (intro impI allI)
    fix x e'
    assume rf: "list_all rootFree cs"
      and eq: "subtractConnection gf i cs subtrahend isEmpty = Inr (x, e')"
    show "resolve (Field i cs) x =
          (if getMatchingRangeFields i subtrahend = [] then Some (Field i cs)
           else leftOf (Field i cs) (uncoveredRanges gf cs (getMatchingRangeFields i subtrahend)))"
    proof (cases "getMatchingRangeFields i subtrahend = []")
      case True
      with eq show ?thesis by (auto simp: subtractConnection.simps Let_def)
    next
      case False
      with eq have sr: "subtractRanges gf (Field i cs) True (getMatchingRangeFields i subtrahend)
          isEmpty = Inr (x, e')"
        by (simp add: subtractConnection.simps Let_def)
      from 4[OF refl False] rf sr False show ?thesis by simp
    qed
  qed
next
  case (5 gf d same isEmpty)
  then show ?case by (auto simp: subtractRanges.simps)
next
  case (6 gf d same r rs isEmpty)
  show ?case
  proof (intro impI allI)
    fix x e'
    assume rf: "list_all rootFree (getChildren d)"
      and eq: "subtractRanges gf d same (r # rs) isEmpty = Inr (x, e')"
    from eq obtain y fe where sc: "subtractChildren gf d r True = Inr (y, fe)"
      by (auto simp: subtractRanges.simps split: sum.splits prod.splits)
    from 6(1) rf sc have y: "resolve d y = leftOf d (uncoveredChildren gf (getChildren d) r)"
      by simp
    from visit_ok_aux(5)[of gf d r True] sc have ok: "okDiff d y" by simp
    show "resolve d x =
        (if r # rs = [] then Some d else leftOf d (uncoveredRanges gf (getChildren d) (r # rs)))"
    proof (cases y)
      case Null
      with y have "uncoveredChildren gf (getChildren d) r = []"
        by (simp add: leftOf_def split: if_splits)
      moreover from Null eq sc have "x = Null" by (simp add: subtractRanges.simps)
      ultimately show ?thesis by (simp add: leftOf_def)
    next
      case Same
      with y have u: "uncoveredChildren gf (getChildren d) r = getChildren d"
        by (auto dest: leftOf_Same[OF sym])
      from Same y have ne: "getChildren d \<noteq> []" by (auto simp: leftOf_def u split: if_splits)
      from Same eq sc have rec: "subtractRanges gf d same rs fe = Inr (x, e')"
        by (simp add: subtractRanges.simps)
      from 6(2)[OF sc refl Same] rf rec have "resolve d x =
          (if rs = [] then Some d else leftOf d (uncoveredRanges gf (getChildren d) rs))" by simp
      with u ne show ?thesis by (simp add: leftOf_def)
    next
      case (New d1)
      with eq sc have rec: "subtractRanges gf d1 False rs fe = Inr (x, e')"
        by (simp add: subtractRanges.simps)
      from ok New have red: "reduct d1 d" by simp
      with rf have rf1: "list_all rootFree (getChildren d1)" by (simp add: reduct_children_rootFree)
      from New y have d1: "uncoveredChildren gf (getChildren d) r \<noteq> []"
        "d1 = withChildren d (uncoveredChildren gf (getChildren d) r)"
        by (auto simp: leftOf_def split: if_splits)
      from rec have nosame: "x \<noteq> Same" by (rule subtractRanges_False_not_Same)
      from 6(3)[OF sc refl New] rf1 rec have "resolve d1 x =
          (if rs = [] then Some d1 else leftOf d1 (uncoveredRanges gf (getChildren d1) rs))" by simp
      moreover from nosame have "resolve d x = resolve d1 x" by (cases x) simp_all
      ultimately show ?thesis using d1 by (simp add: leftOf_def)
    qed
  qed
next
  case (7 gf i cs subtrahend isEmpty)
  show ?case
  proof (intro impI allI)
    fix x e'
    assume rf: "list_all rootFree cs"
      and eq: "subtractField gf i cs subtrahend isEmpty = Inr (x, e')"
    show "resolve (Field i cs) x =
          (case gf subtrahend (Field i cs) of
             None \<Rightarrow> Some (Field i cs)
           | Some subField \<Rightarrow> leftOf (Field i cs) (uncoveredChildren gf cs subField))"
    proof (cases "gf subtrahend (Field i cs)")
      case None
      with eq show ?thesis by (auto simp: subtractField.simps)
    next
      case (Some subField)
      with eq have "subtractChildren gf (Field i cs) subField True = Inr (x, e')"
        by (simp add: subtractField.simps)
      with 7[OF Some] rf Some show ?thesis by simp
    qed
  qed
next
  case (8 gf n subtrahend isEmpty)
  show ?case
  proof (intro impI allI)
    fix x e'
    assume rf: "list_all rootFree (getChildren n)"
      and eq: "subtractChildren gf n subtrahend isEmpty = Inr (x, e')"
    from eq obtain xs where m: "mapChildren gf (getChildren n) subtrahend isEmpty = Inr (xs, e')"
      and x: "x = clone n xs"
      by (auto simp: subtractChildren.simps split: sum.splits prod.splits)
    from visit_ok_aux(6)[of gf "getChildren n" subtrahend isEmpty] m
    have "length xs = length (getChildren n)" by (simp add: okDiffs_length)
    with 8 rf m x show "resolve n x = leftOf n (uncoveredChildren gf (getChildren n) subtrahend)"
      by (simp add: resolve_clone)
  qed
next
  case (9 gf subtrahend isEmpty)
  then show ?case by (auto simp: mapChildren.simps)
next
  case (10 gf child cs subtrahend isEmpty)
  show ?case
  proof (intro impI allI)
    fix xs e'
    assume rf: "list_all rootFree (child # cs)"
      and eq: "mapChildren gf (child # cs) subtrahend isEmpty = Inr (xs, e')"
    from eq obtain x ce ys where v: "visit gf child subtrahend True = Inr (x, ce)"
      and m: "mapChildren gf cs subtrahend (isEmpty \<and> ce) = Inr (ys, e')" and xs: "xs = x # ys"
      by (auto simp: mapChildren.simps split: sum.splits prod.splits)
    from 10(1) rf v have c: "resolve child x = uncovered gf child subtrahend" by simp
    from 10(2)[OF v refl] rf m have "compact cs ys = uncoveredChildren gf cs subtrahend" by simp
    with c xs show "compact (child # cs) xs = uncoveredChildren gf (child # cs) subtrahend"
      by (simp split: option.splits)
  qed
qed

lemma mapChildren_uncovered:
  "list_all rootFree ks \<Longrightarrow> mapChildren gf ks sub e = Inr (xs, e') \<Longrightarrow>
   compact ks xs = uncoveredChildren gf ks sub"
  using visit_uncovered_aux(6) by blast

lemma visit_uncovered:
  "rootFree n \<Longrightarrow> visit gf n sub e = Inr (x, e') \<Longrightarrow> resolve n x = uncovered gf n sub"
  using visit_uncovered_aux(1) by blast

lemma uncoveredChildren_reducts:
  assumes "list_all rootFree cs"
  shows "reducts (uncoveredChildren gf cs s) cs"
proof -
  from assms obtain x e' where sc: "subtractChildren gf (Fragment cs) s True = Inr (x, e')"
    using subtractChildren_total[of "Fragment cs" gf s True] by auto
  then obtain xs where m: "mapChildren gf cs s True = Inr (xs, e')"
    by (auto simp: subtractChildren.simps split: sum.splits prod.splits)
  from visit_ok_aux(6)[of gf cs s True] m have "okDiffs cs xs" by simp
  then have "reducts (compact cs xs) cs" by (rule okDiffs_reducts)
  with mapChildren_uncovered[OF assms m] show ?thesis by simp
qed


section \<open>Example queries\<close>

text \<open>
  Modelled from the spec: \<open>getField\<close> of RelayQuery is not among the sources. "If the
  matching field exists in the subtrahend", and two nodes denote the same logical field
  when their schema names match: the lookup returns the first Field child of the
  subtrahend with the schema name of the given field. It instantiates the parameter
  \<open>gf\<close> in the examples only.
\<close>

definition getField :: getField where
  "getField subtrahend node =
     (case node of
        Field i cs \<Rightarrow>
          find (\<lambda>child. case child of Field j ds \<Rightarrow> schemaName j = schemaName i | _ \<Rightarrow> False)
            (getChildren subtrahend)
      | _ \<Rightarrow> None)"

text \<open>An unaliased field without subselections, requisite or not.\<close>

definition exScalar :: "string \<Rightarrow> bool \<Rightarrow> node" where
  "exScalar nm req =
     Field \<lparr>schemaName = nm, applicationName = nm, callsWithValues = [],
       isRequisite = req, isRefQueryDependency = False, canHaveSubselections = False,
       isConnection = False\<rparr> []"

text \<open>The getters of a connection field called with the given arguments.\<close>

definition exRange :: "string \<Rightarrow> call list \<Rightarrow> field_info" where
  "exRange nm args =
     \<lparr>schemaName = nm, applicationName = nm, callsWithValues = args,
       isRequisite = False, isRefQueryDependency = False, canHaveSubselections = True,
       isConnection = True\<rparr>"

text \<open>The getters of a field with subselections that is not a connection.\<close>

definition exPlain :: "string \<Rightarrow> field_info" where
  "exPlain nm =
     \<lparr>schemaName = nm, applicationName = nm, callsWithValues = [],
       isRequisite = False, isRefQueryDependency = False, canHaveSubselections = True,
       isConnection = False\<rparr>"

lemmas ex_defs = exScalar_def exRange_def getField_def

lemmas run_simps = subtractRelayQuery_def visit.simps subtractConnection.simps
  subtractField.simps subtractChildren.simps subtractRanges.simps mapChildren.simps
  subtractScalar_def clone_def instanceofRoot_def Let_def getMatchingRangeFields_def

section \<open>The claims about subtractRelayQuery\<close>

text \<open>
  C1, as the spec has it: for a Root subtrahend, subtract returns null when every field
  below the minuend is present in the subtrahend, the minuend itself when no field
  overlaps, and otherwise a new tree of exactly the uncovered fields. The code differs by
  design in two places, shown on two inputs. A minuend holding only the requisite field
  \<open>id\<close>, against a subtrahend of the same root with no field at all: no field overlaps,
  and the result is null, not the minuend. A minuend \<open>id, name, email\<close> (\<open>id\<close>
  requisite) against \<open>id, name\<close>: the new tree holds \<open>id\<close> besides the uncovered
  \<open>email\<close>.
\<close>

theorem subtract_tri_state_counterexample:
  "subtractRelayQuery getField (Root ''node'' None [exScalar ''id'' True]) (Root ''node'' None [])
     = Inr Null \<and>
   subtractRelayQuery getField
     (Root ''node'' None [exScalar ''id'' True, exScalar ''name'' False, exScalar ''email'' False])
     (Root ''node'' None [exScalar ''id'' True, exScalar ''name'' False])
     = Inr (New (Root ''node'' None [exScalar ''id'' True, exScalar ''email'' False]))"
  by (simp add: run_simps ex_defs)

text \<open>
  C1, amended: for a Root minuend with no Root below it and a Root subtrahend, subtract
  does not fail and returns one of three results, decided by what the subtrahend leaves
  uncovered of the children of the minuend (\<open>uncoveredChildren\<close>: covered fields are
  removed, requisite fields without subselections are always kept, a field with
  subselections is kept when it is requisite or something in it is not empty, and what
  is kept keeps its shape and order). The minuend itself when the roots do not overlap
  (field name or identifying argument differ). Otherwise null when everything left
  uncovered is empty for \<open>isEmptyField\<close> (nothing, or only requisite bookkeeping fields);
  the minuend itself when nothing was removed; and in any other case a new Root with
  exactly the uncovered children.
\<close>

theorem subtract_root_tri_state:
  assumes rf: "list_all rootFree cs" and s: "isRoot s"
  shows "subtractRelayQuery gf (Root f a cs) s =
     Inr (if \<not> canSubtractRoot (Root f a cs) s then Same
          else if list_all isEmptyField (uncoveredChildren gf cs s) then Null
          else if uncoveredChildren gf cs s = cs then Same
          else New (Root f a (uncoveredChildren gf cs s))) \<and>
     reducts (uncoveredChildren gf cs s) cs"
proof
  show "reducts (uncoveredChildren gf cs s) cs" using rf by (rule uncoveredChildren_reducts)
  from rf s show "subtractRelayQuery gf (Root f a cs) s =
     Inr (if \<not> canSubtractRoot (Root f a cs) s then Same
          else if list_all isEmptyField (uncoveredChildren gf cs s) then Null
          else if uncoveredChildren gf cs s = cs then Same
          else New (Root f a (uncoveredChildren gf cs s)))"
  proof (cases rule: subtract_root_cases[where f = f and a = a and gf = gf])
    case mismatch
    then show ?thesis by simp
  next
    case (overlap xs e')
    from mapChildren_uncovered[OF rf overlap(2)]
    have u: "compact cs xs = uncoveredChildren gf cs s" .
    from visit_ok_aux(6)[of gf cs s True] overlap(2) have ok: "okDiffs cs xs" by simp
    have same: "list_all (\<lambda>r. r = Same) xs = (compact cs xs = cs)"
    proof
      assume "list_all (\<lambda>r. r = Same) xs"
      with overlap(4) show "compact cs xs = cs" by (simp add: compact_all_Same)
    next
      assume c: "compact cs xs = cs"
      show "list_all (\<lambda>r. r = Same) xs"
      proof (rule ccontr)
        assume "\<not> list_all (\<lambda>r. r = Same) xs"
        from okDiffs_size_strict[OF ok this] c show False by simp
      qed
    qed
    have "clone (Root f a cs) xs =
        (if compact cs xs = [] then Null
         else if compact cs xs = cs then Same else New (Root f a (compact cs xs)))"
      by (simp add: clone_def Let_def same)
    with overlap(1,3,6) u show ?thesis by auto
  qed
qed

theorem subtract_root_tri_state_witness:
  "list_all rootFree [Field (exPlain ''address'') [exScalar ''city'' False, exScalar ''zip'' False]] \<and>
   isRoot (Root ''me'' None [Field (exPlain ''address'') [exScalar ''city'' False]]) \<and>
   subtractRelayQuery getField
     (Root ''me'' None [Field (exPlain ''address'') [exScalar ''city'' False, exScalar ''zip'' False]])
     (Root ''me'' None [Field (exPlain ''address'') [exScalar ''city'' False]]) =
     Inr (New (Root ''me'' None [Field (exPlain ''address'') [exScalar ''zip'' False]])) \<and>
   subtractRelayQuery getField
     (Root ''me'' None [Field (exPlain ''address'') [exScalar ''city'' False]])
     (Root ''me'' None [Field (exPlain ''address'') [exScalar ''city'' False]]) = Inr Null \<and>
   subtractRelayQuery getField
     (Root ''me'' None [Field (exPlain ''address'') [exScalar ''zip'' False]])
     (Root ''me'' None [Field (exPlain ''address'') [exScalar ''city'' False]]) = Inr Same"
proof -
  let ?s = "Root ''me'' None [Field (exPlain ''address'') [exScalar ''city'' False]]"
  have rf: "list_all rootFree [Field (exPlain ''address'') cs]"
    if "list_all rootFree cs" for cs using that by simp
  have s: "isRoot ?s" by simp
  have u: "uncoveredChildren getField
      [Field (exPlain ''address'') [exScalar ''city'' False, exScalar ''zip'' False]] ?s =
      [Field (exPlain ''address'') [exScalar ''zip'' False]]"
    "uncoveredChildren getField [Field (exPlain ''address'') [exScalar ''city'' False]] ?s = []"
    "uncoveredChildren getField [Field (exPlain ''address'') [exScalar ''zip'' False]] ?s =
      [Field (exPlain ''address'') [exScalar ''zip'' False]]"
    by (simp_all add: uncovered.simps ex_defs exPlain_def keepField_def nonEmpty_def)
  have e: "\<not> isEmptyField (Field (exPlain ''address'') [exScalar ''zip'' False])"
    by (simp add: ex_defs exPlain_def)
  have r: "list_all rootFree [exScalar ''city'' False, exScalar ''zip'' False]"
    "list_all rootFree [exScalar ''city'' False]" "list_all rootFree [exScalar ''zip'' False]"
    by (simp_all add: exScalar_def)
  have a: "subtractRelayQuery getField
     (Root ''me'' None [Field (exPlain ''address'') [exScalar ''city'' False, exScalar ''zip'' False]])
     ?s = Inr (New (Root ''me'' None [Field (exPlain ''address'') [exScalar ''zip'' False]]))"
    using subtract_root_tri_state[OF rf[OF r(1)] s, of getField "''me''" None, THEN conjunct1]
    unfolding u by (simp add: ex_defs exPlain_def)
  have b: "subtractRelayQuery getField
     (Root ''me'' None [Field (exPlain ''address'') [exScalar ''city'' False]]) ?s = Inr Null"
    using subtract_root_tri_state[OF rf[OF r(2)] s, of getField "''me''" None, THEN conjunct1]
    unfolding u by simp
  have c: "subtractRelayQuery getField
     (Root ''me'' None [Field (exPlain ''address'') [exScalar ''zip'' False]]) ?s = Inr Same"
    using subtract_root_tri_state[OF rf[OF r(3)] s, of getField "''me''" None, THEN conjunct1]
    unfolding u by (simp add: ex_defs exPlain_def)
  from a b c rf[OF r(1)] s show ?thesis by simp
qed

text \<open>
  C2, as the claim words it: arguments are told apart by their names. A sibling covers the
  range when every argument of the range other than \<open>first\<close> and \<open>last\<close> has an equal
  value in the sibling, every \<open>first\<close> or \<open>last\<close> of the range has a count in the sibling
  that is at least as large, and the sibling has no argument that the range lacks.
\<close>

definition coversAsWorded :: "field_info \<Rightarrow> field_info \<Rightarrow> bool" where
  "coversAsWorded minField subField =
     (list_all (\<lambda>minArg. list_ex (\<lambda>subArg.
          name subArg = name minArg \<and>
          (if name minArg = ''first'' \<or> name minArg = ''last''
           then countLeq (value minArg) (value subArg)
           else value minArg = value subArg)) (callsWithValues subField))
        (callsWithValues minField) \<and>
      list_all (\<lambda>subArg. list_ex (\<lambda>minArg. name minArg = name subArg) (callsWithValues minField))
        (callsWithValues subField))"

text \<open>
  C2, as the spec has it, fails by design: \<open>canSubtractField\<close> pairs the arguments by their
  position. The range \<open>friends(orderby: "name", first: 10)\<close> has its arguments covered, name
  by name, by the sibling \<open>friends(first: 20, orderby: "name")\<close>, and the sibling does not
  count as covering it.
\<close>

theorem range_covered_counterexample:
  "coversAsWorded
     (exRange ''friends'' [\<lparr>name = ''orderby'', value = VStr ''name''\<rparr>,
        \<lparr>name = ''first'', value = VNum 10\<rparr>])
     (exRange ''friends'' [\<lparr>name = ''first'', value = VNum 20\<rparr>,
        \<lparr>name = ''orderby'', value = VStr ''name''\<rparr>]) \<and>
   \<not> canSubtractField
     (exRange ''friends'' [\<lparr>name = ''orderby'', value = VStr ''name''\<rparr>,
        \<lparr>name = ''first'', value = VNum 10\<rparr>])
     (exRange ''friends'' [\<lparr>name = ''first'', value = VNum 20\<rparr>,
        \<lparr>name = ''orderby'', value = VStr ''name''\<rparr>])"
  by (simp add: coversAsWorded_def canSubtractField_def exRange_def every_def at_def
      countLeq_VNum)

text \<open>
  C2, amended: a subtrahend sibling counts as covering the minuend range exactly when it
  has the schema name of the range and the two argument lists have the same length and
  pair up position by position: the same name and, for \<open>first\<close> and \<open>last\<close>, a minuend
  count that is at most the subtrahend count (the counts as \<open>parseInt\<close> reads the string
  conversions of the values), for any other argument equal values. For counts that are
  integers from \<open>-2^53\<close> to \<open>2^53 - 1\<close> the comparison is that of the integers, so a range
  asking for the first 10 is covered by one asking for the first 20 and not the other way
  round.
\<close>

theorem range_covered_iff:
  "canSubtractField minField subField =
     (schemaName minField = schemaName subField \<and>
      list_all2 argCovered (callsWithValues minField) (callsWithValues subField)) \<and>
   argCovered \<lparr>name = ''first'', value = VNum m\<rparr> \<lparr>name = ''first'', value = VNum n\<rparr> =
     (sint m \<le> sint n) \<and>
   argCovered \<lparr>name = ''last'', value = VNum m\<rparr> \<lparr>name = ''last'', value = VNum n\<rparr> =
     (sint m \<le> sint n) \<and>
   canSubtractField (exRange nm [\<lparr>name = ''first'', value = VNum m\<rparr>])
      (exRange nm [\<lparr>name = ''first'', value = VNum n\<rparr>]) = (sint m \<le> sint n) \<and>
   canSubtractField (exRange nm [\<lparr>name = ''last'', value = VNum m\<rparr>])
      (exRange nm [\<lparr>name = ''last'', value = VNum n\<rparr>]) = (sint m \<le> sint n)"
proof -
  have a: "argCovered \<lparr>name = d, value = VNum m\<rparr> \<lparr>name = d, value = VNum n\<rparr> =
      (sint m \<le> sint n)" if "d = ''first'' \<or> d = ''last''" for d
    using that by (auto simp: argCovered_def parseInt_toStr_VNum simp del: toStr.simps)
  have c: "canSubtractField (exRange nm [\<lparr>name = d, value = VNum m\<rparr>])
      (exRange nm [\<lparr>name = d, value = VNum n\<rparr>]) = (sint m \<le> sint n)"
    if "d = ''first'' \<or> d = ''last''" for d
    using a[OF that] by (simp add: canSubtractField_iff exRange_def)
  have "canSubtractField minField subField =
     (schemaName minField = schemaName subField \<and>
      list_all2 argCovered (callsWithValues minField) (callsWithValues subField))"
  proof (cases "schemaName minField = schemaName subField")
    case True
    then show ?thesis by (simp add: canSubtractField_iff)
  next
    case False
    then show ?thesis by (simp add: canSubtractField_def)
  qed
  with a c show ?thesis by simp
qed

theorem range_covered_iff_witness:
  "canSubtractField (exRange ''friends'' [\<lparr>name = ''first'', value = VNum 10\<rparr>])
     (exRange ''friends'' [\<lparr>name = ''first'', value = VNum 20\<rparr>]) \<and>
   \<not> canSubtractField (exRange ''friends'' [\<lparr>name = ''first'', value = VNum 20\<rparr>])
     (exRange ''friends'' [\<lparr>name = ''first'', value = VNum 10\<rparr>]) \<and>
   \<not> canSubtractField (exRange ''friends'' [\<lparr>name = ''first'', value = VNum 10\<rparr>])
     (exRange ''friends'' [\<lparr>name = ''last'', value = VNum 20\<rparr>]) \<and>
   subtractRelayQuery getField
     (Root ''me'' None [Field (exRange ''friends'' [\<lparr>name = ''first'', value = VNum 10\<rparr>])
        [exScalar ''name'' False]])
     (Root ''me'' None [Field (exRange ''friends'' [\<lparr>name = ''first'', value = VNum 20\<rparr>])
        [exScalar ''name'' False]]) = Inr Null \<and>
   subtractRelayQuery getField
     (Root ''me'' None [Field (exRange ''friends'' [\<lparr>name = ''first'', value = VNum 20\<rparr>])
        [exScalar ''name'' False]])
     (Root ''me'' None [Field (exRange ''friends'' [\<lparr>name = ''first'', value = VNum 10\<rparr>])
        [exScalar ''name'' False]]) = Inr Same"
proof -
  have a: "canSubtractField (exRange ''friends'' [\<lparr>name = ''first'', value = VNum 10\<rparr>])
     (exRange ''friends'' [\<lparr>name = ''first'', value = VNum 20\<rparr>])"
    using range_covered_iff[where nm = "''friends''" and m = 10 and n = 20,
        THEN conjunct2, THEN conjunct2, THEN conjunct2, THEN conjunct1]
    by simp
  have b: "\<not> canSubtractField (exRange ''friends'' [\<lparr>name = ''first'', value = VNum 20\<rparr>])
     (exRange ''friends'' [\<lparr>name = ''first'', value = VNum 10\<rparr>])"
    using range_covered_iff[where nm = "''friends''" and m = 20 and n = 10,
        THEN conjunct2, THEN conjunct2, THEN conjunct2, THEN conjunct1]
    by simp
  have c: "\<not> canSubtractField (exRange ''friends'' [\<lparr>name = ''first'', value = VNum 10\<rparr>])
     (exRange ''friends'' [\<lparr>name = ''last'', value = VNum 20\<rparr>])"
    using range_covered_iff[where
        minField = "exRange ''friends'' [\<lparr>name = ''first'', value = VNum 10\<rparr>]" and
        subField = "exRange ''friends'' [\<lparr>name = ''last'', value = VNum 20\<rparr>]",
        THEN conjunct1]
    by (simp add: exRange_def argCovered_def)
  show ?thesis using a b c by (simp add: run_simps ex_defs)
qed



text \<open>
  C7: for two Roots whose field names differ or whose identifying arguments are not equal
  by value, subtract returns the minuend itself.
\<close>

theorem no_overlap_identity:
  "f \<noteq> g \<or> a \<noteq> b \<Longrightarrow> subtractRelayQuery gf (Root f a cs) (Root g b ds) = Inr Same"
  by (auto simp: subtractRelayQuery_def visit.simps instanceofRoot_def)

theorem no_overlap_identity_witness:
  "''viewer'' \<noteq> ''node'' \<and>
   subtractRelayQuery getField (Root ''viewer'' None [exScalar ''name'' False])
     (Root ''node'' None [exScalar ''name'' False]) = Inr Same"
  using no_overlap_identity[of "''viewer''" "''node''" None None getField
      "[exScalar ''name'' False]" "[exScalar ''name'' False]"]
  by simp

text \<open>
  C9, as the spec has it: every structurally incompatible pairing fails with an invariant
  violation and is never a silent no-op. A Field as minuend and a Root as subtrahend are
  such a pairing; when nothing non-empty is left the code returns null and no invariant
  fails.
\<close>

theorem incompatible_pairing_counterexample:
  "subtractRelayQuery getField (exScalar ''id'' True) (Root ''node'' None [exScalar ''id'' True])
     = Inr Null"
  by (simp add: run_simps ex_defs)

text \<open>
  C9, amended: when the minuend is a Root and the subtrahend is not, subtract fails with
  the invariant "Cannot subtract a non-root node from a root". When the minuend is not a
  Root, subtract never returns a tree: it fails when the visitor fails (a Root below the
  minuend meets a subtrahend that is not a Root); otherwise it returns null when the
  state is left empty, and only then, and fails with "Expected a subtracted query root"
  when the state is left not empty. For a minuend with no Root in it the state is left
  empty exactly when the subtrahend leaves nothing of the minuend uncovered, or what it
  leaves is empty for \<open>isEmptyField\<close>.
\<close>

theorem incompatible_pairing:
  "(isRoot m \<and> \<not> isRoot s \<longrightarrow> subtractRelayQuery gf m s = Inl nonRootSubtrahend) \<and>
   (\<not> isRoot m \<longrightarrow>
      subtractRelayQuery gf m s =
        (case visit gf m s True of
           Inl e \<Rightarrow> Inl nonRootSubtrahend
         | Inr (d, isEmpty) \<Rightarrow> if isEmpty then Inr Null else Inl expectedRoot)) \<and>
   (rootFree m \<longrightarrow>
      subtractRelayQuery gf m s =
        (case uncovered gf m s of
           None \<Rightarrow> Inr Null
         | Some d \<Rightarrow> if isEmptyField d then Inr Null else Inl expectedRoot))"
proof (intro conjI impI)
  assume "isRoot m \<and> \<not> isRoot s"
  then show "subtractRelayQuery gf m s = Inl nonRootSubtrahend"
    by (cases m) (simp_all add: subtractRelayQuery_def visit.simps)
next
  assume nr: "\<not> isRoot m"
  show "subtractRelayQuery gf m s =
        (case visit gf m s True of
           Inl e \<Rightarrow> Inl nonRootSubtrahend
         | Inr (d, isEmpty) \<Rightarrow> if isEmpty then Inr Null else Inl expectedRoot)"
  proof (cases "visit gf m s True")
    case (Inl err)
    then have "err = nonRootSubtrahend" by (rule visit_error)
    with Inl show ?thesis by (simp add: subtractRelayQuery_def)
  next
    case (Inr p)
    obtain x e where p: "p = (x, e)" by (cases p)
    have "\<not> instanceofRoot m x"
    proof (cases x)
      case (New d)
      with Inr p have "reduct d m" using visit_ok[of gf m s True x e] by simp
      with nr New show ?thesis by (simp add: instanceofRoot_def reduct_isRoot)
    qed (use nr in \<open>simp_all add: instanceofRoot_def\<close>)
    with Inr p show ?thesis by (simp add: subtractRelayQuery_def)
  qed
next
  assume rf: "rootFree m"
  then have nr: "\<not> isRoot m" by (cases m) simp_all
  from rf obtain x e where v: "visit gf m s True = Inr (x, e)"
    using visit_total[of m gf s True] by auto
  from visit_empty[OF rf v] have e: "e = emptyOf m x" .
  from visit_uncovered[OF rf v] have u: "resolve m x = uncovered gf m s" .
  have "\<not> instanceofRoot m x"
  proof (cases x)
    case (New d)
    with v have "reduct d m" using visit_ok[of gf m s True x e] by simp
    with nr New show ?thesis by (simp add: instanceofRoot_def reduct_isRoot)
  qed (use nr in \<open>simp_all add: instanceofRoot_def\<close>)
  with v e u show "subtractRelayQuery gf m s =
        (case uncovered gf m s of
           None \<Rightarrow> Inr Null
         | Some d \<Rightarrow> if isEmptyField d then Inr Null else Inl expectedRoot)"
    by (auto simp: subtractRelayQuery_def emptyOf_def split: option.splits)
qed

theorem incompatible_pairing_witness:
  "isRoot (Root ''node'' None [exScalar ''name'' False]) \<and>
   \<not> isRoot (Fragment [exScalar ''name'' False]) \<and>
   rootFree (Fragment [exScalar ''name'' False]) \<and>
   subtractRelayQuery getField (Root ''node'' None [exScalar ''name'' False])
     (Fragment [exScalar ''name'' False]) = Inl nonRootSubtrahend \<and>
   subtractRelayQuery getField (Fragment [exScalar ''name'' False])
     (Root ''node'' None []) = Inl expectedRoot \<and>
   subtractRelayQuery getField (Fragment [exScalar ''name'' False])
     (Root ''node'' None [exScalar ''name'' False]) = Inr Null"
proof -
  have u: "uncovered getField (Fragment [exScalar ''name'' False]) (Root ''node'' None []) =
      Some (Fragment [exScalar ''name'' False])"
    "uncovered getField (Fragment [exScalar ''name'' False])
      (Root ''node'' None [exScalar ''name'' False]) = None"
    by (simp_all add: uncovered.simps ex_defs)
  have rf: "rootFree (Fragment [exScalar ''name'' False])" by (simp add: exScalar_def)
  have e: "\<not> isEmptyField (Fragment [exScalar ''name'' False])" by (simp add: exScalar_def)
  have a: "subtractRelayQuery getField (Root ''node'' None [exScalar ''name'' False])
     (Fragment [exScalar ''name'' False]) = Inl nonRootSubtrahend"
    using incompatible_pairing[of "Root ''node'' None [exScalar ''name'' False]"
      "Fragment [exScalar ''name'' False]" getField, THEN conjunct1]
    by simp
  have b: "subtractRelayQuery getField (Fragment [exScalar ''name'' False])
     (Root ''node'' None []) = Inl expectedRoot"
    using incompatible_pairing[of "Fragment [exScalar ''name'' False]" "Root ''node'' None []"
      getField, THEN conjunct2, THEN conjunct2] rf e
    by (simp add: u)
  have c: "subtractRelayQuery getField (Fragment [exScalar ''name'' False])
     (Root ''node'' None [exScalar ''name'' False]) = Inr Null"
    using incompatible_pairing[of "Fragment [exScalar ''name'' False]"
      "Root ''node'' None [exScalar ''name'' False]" getField, THEN conjunct2, THEN conjunct2] rf
    by (simp add: u)
  from a b c rf show ?thesis by simp
qed

text \<open>
  C8: \<open>subtract(Q, Q)\<close> is null for every query tree with no requisite-only content. The
  code misses this where a connection field has a \<open>first\<close> or \<open>last\<close> argument whose value
  \<open>parseInt\<close> does not read, \<open>null\<close> here (the case that the comment in
  \<open>canSubtractField\<close> says the code assumes away): \<open>parseInt\<close> gives \<open>NaN\<close>, \<open>NaN <= NaN\<close>
  is false, the field does not match itself as a range and is kept whole. The query below
  has no requisite field, and subtracting it from itself returns the query.
\<close>

theorem self_subtraction_first_null:
  "subtractRelayQuery getField
     (Root ''me'' None [Field (exRange ''friends'' [\<lparr>name = ''first'', value = VNull\<rparr>])
        [exScalar ''name'' False]])
     (Root ''me'' None [Field (exRange ''friends'' [\<lparr>name = ''first'', value = VNull\<rparr>])
        [exScalar ''name'' False]]) = Inr Same \<and>
   \<not> canSubtractField (exRange ''friends'' [\<lparr>name = ''first'', value = VNull\<rparr>])
     (exRange ''friends'' [\<lparr>name = ''first'', value = VNull\<rparr>]) \<and>
   parseInt (toStr VNull) = NaN"
  by code_simp

text \<open>
  Where every field of the query is covered by the query itself (\<open>covered\<close>: among other
  things every connection field matches itself as a range), and the lookup reads only the
  getters of a field, subtracting a Root from itself gives null.
\<close>

lemma self_subtraction_null:
  assumes st: "gfStable gf" and rf: "list_all rootFree cs"
    and cov: "list_all (covered gf (Root f a cs)) cs"
  shows "subtractRelayQuery gf (Root f a cs) (Root f a cs) = Inr Null"
proof -
  from rf obtain x e' where sc: "subtractChildren gf (Root f a cs) (Root f a cs) True = Inr (x, e')"
    using subtractChildren_total[of "Root f a cs" gf "Root f a cs" True] by auto
  with st rf cov have e' using covered_children_empty[of gf "Root f a cs" "Root f a cs" x e'] by simp
  with sc show ?thesis by (simp add: subtractRelayQuery_def visit.simps)
qed

lemma gfStable_getField: "gfStable getField"
  by (simp add: gfStable_def getField_def)

lemma self_subtraction_null_example:
  "gfStable getField \<and>
   list_all rootFree
     [exScalar ''id'' True, exScalar ''name'' False,
      Field (exRange ''friends'' [\<lparr>name = ''first'', value = VNum 10\<rparr>]) [exScalar ''name'' False]] \<and>
   subtractRelayQuery getField
     (Root ''me'' None
        [exScalar ''id'' True, exScalar ''name'' False,
         Field (exRange ''friends'' [\<lparr>name = ''first'', value = VNum 10\<rparr>])
           [exScalar ''name'' False]])
     (Root ''me'' None
        [exScalar ''id'' True, exScalar ''name'' False,
         Field (exRange ''friends'' [\<lparr>name = ''first'', value = VNum 10\<rparr>])
           [exScalar ''name'' False]]) = Inr Null"
proof -
  have rf: "list_all rootFree
     [exScalar ''id'' True, exScalar ''name'' False,
      Field (exRange ''friends'' [\<lparr>name = ''first'', value = VNum 10\<rparr>]) [exScalar ''name'' False]]"
    by (simp add: ex_defs)
  have m: "canSubtractField (exRange ''friends'' [\<lparr>name = ''first'', value = VNum 10\<rparr>])
      (exRange ''friends'' [\<lparr>name = ''first'', value = VNum 10\<rparr>])"
    by (simp add: canSubtractField_iff exRange_def argCovered_def parseInt_showInt)
  have cov: "list_all (covered getField (Root ''me'' None
        [exScalar ''id'' True, exScalar ''name'' False,
         Field (exRange ''friends'' [\<lparr>name = ''first'', value = VNum 10\<rparr>])
           [exScalar ''name'' False]]))
     [exScalar ''id'' True, exScalar ''name'' False,
      Field (exRange ''friends'' [\<lparr>name = ''first'', value = VNum 10\<rparr>]) [exScalar ''name'' False]]"
    using m by (simp add: exScalar_def getField_def getMatchingRangeFields_def)
      (simp add: exRange_def)
  from self_subtraction_null[OF gfStable_getField rf cov] gfStable_getField rf
  show ?thesis by simp
qed

section \<open>RelayPendingQueryTracker: the objects\<close>

type_synonym queryID = string
type_synonym fetchRef = nat
type_synonym mapRef = nat

text \<open>A query as the tracker sees it: a \<open>RelayQuery.Root\<close> and what its \<open>getID()\<close> returns.\<close>

record query =
  getID :: queryID
  root :: node

text \<open>
  Modelled from the spec: RelayFetchMode is not among the sources; the constructor only
  compares the mode with \<open>PRELOAD\<close>.
\<close>

datatype fetchMode = CLIENT | PRELOAD | REFETCH

text \<open>
  A \<open>Deferred\<close> of fbjs, as the list of the calls of \<open>resolve\<close> and \<open>reject\<close> made on
  it: \<open>isSettled()\<close> holds once there is one, and the promise takes the first.
\<close>

datatype settlement = Resolved | Rejected error

type_synonym deferred = "settlement list"

definition deferredIsSettled :: "deferred \<Rightarrow> bool" where
  "deferredIsSettled d = (d \<noteq> [])"

text \<open>
  A JavaScript object used as a map is an association list in insertion order:
  \<open>o[k] = v\<close> is \<open>AList.update k v\<close>, \<open>delete o[k]\<close> is \<open>AList.delete k\<close>.
  The keys are query IDs, none of them an array index, so that the object is enumerated in
  insertion order.
\<close>

definition hasItems :: "('k \<times> 'v) list \<Rightarrow> bool" where
  "hasItems m = (length (map fst m) \<noteq> 0)"

text \<open>
  A \<open>PendingFetch\<close>. References to other fetches and to the registry object are
  addresses. \<open>awaiting\<close> stands for \<open>_fetchSubtractedQueryPromise\<close> with the two
  callbacks passed to \<open>done\<close>: it holds the \<open>subtractedQuery\<close> bound to them until the
  promise settles and one of them runs.
\<close>

record pending_fetch =
  dependents :: "fetchRef list"
  forceIndex :: "nat option"
  pendingDependencyMap :: "(queryID \<times> fetchRef) list"
  pendingFetchMap :: mapRef
  query :: query
  resolvedDeferred :: deferred
  resolvedSubtractedQuery :: bool
  fetchedSubtractedQuery :: bool
  errors :: "error list"
  awaiting :: "node option"

text \<open>An entry of the registry: \<open>{fetch: this, query: subtractedQuery}\<close>.\<close>

record pending =
  fetch :: fetchRef
  pendingQuery :: node

text \<open>What the network layer resolves with: \<open>result.response\<close> is an object, or it is not.\<close>

type_synonym response = string
type_synonym result = "response option"

text \<open>A task waiting in the task queue of the store, with what its closure holds.\<close>

record task =
  taskFetch :: fetchRef
  taskQuery :: node
  taskResult :: result

text \<open>
  The tracker and what surrounds it: the \<open>PendingFetch\<close> objects and the registry objects
  by address, the registry the tracker points to, the queries passed to
  \<open>fetchRelayQuery\<close>, the task queue, and the calls of \<open>handleQueryPayload\<close>.
\<close>

record world =
  heap :: "pending_fetch list"
  maps :: "(queryID \<times> pending) list list"
  trackerMap :: mapRef
  fetched :: "node list"
  taskQueue :: "task list"
  payloads :: "(node \<times> response \<times> nat option) list"

definition newTracker :: world where
  "newTracker = \<lparr>heap = [], maps = [[]], trackerMap = 0, fetched = [], taskQueue = [],
     payloads = []\<rparr>"

section \<open>PendingFetch: the methods that change the fetch itself\<close>

definition isSettled :: "pending_fetch \<Rightarrow> bool" where
  "isSettled pf =
     (length (errors pf) > 0 \<or>
      (resolvedSubtractedQuery pf \<and> \<not> hasItems (pendingDependencyMap pf)))"

definition updateResolvedDeferred :: "pending_fetch \<Rightarrow> pending_fetch" where
  "updateResolvedDeferred pf =
     (if isSettled pf \<and> \<not> deferredIsSettled (resolvedDeferred pf) then
        (if length (errors pf) \<noteq> 0
         then pf\<lparr>resolvedDeferred := resolvedDeferred pf @ [Rejected (errors pf ! 0)]\<rparr>
         else pf\<lparr>resolvedDeferred := resolvedDeferred pf @ [Resolved]\<rparr>)
      else pf)"

definition markDependencyAsResolved :: "queryID \<Rightarrow> pending_fetch \<Rightarrow> pending_fetch" where
  "markDependencyAsResolved dependencyQueryID pf =
     updateResolvedDeferred
       (pf\<lparr>pendingDependencyMap := AList.delete dependencyQueryID (pendingDependencyMap pf)\<rparr>)"

definition markDependencyAsRejected ::
  "queryID \<Rightarrow> error \<Rightarrow> pending_fetch \<Rightarrow> pending_fetch" where
  "markDependencyAsRejected dependencyQueryID err pf =
     updateResolvedDeferred
       (pf\<lparr>pendingDependencyMap := AList.delete dependencyQueryID (pendingDependencyMap pf),
           errors := errors pf @ [err]\<rparr>)"

definition addDependent :: "fetchRef \<Rightarrow> pending_fetch \<Rightarrow> pending_fetch" where
  "addDependent pendingFetch pf = pf\<lparr>dependents := dependents pf @ [pendingFetch]\<rparr>"

section \<open>PendingFetch: the methods that reach other objects\<close>

definition updateFetch :: "fetchRef \<Rightarrow> (pending_fetch \<Rightarrow> pending_fetch) \<Rightarrow> world \<Rightarrow> world" where
  "updateFetch r f w = w\<lparr>heap := (heap w)[r := f (heap w ! r)]\<rparr>"

definition updateMap ::
  "mapRef \<Rightarrow> ((queryID \<times> pending) list \<Rightarrow> (queryID \<times> pending) list) \<Rightarrow> world \<Rightarrow> world" where
  "updateMap m f w = w\<lparr>maps := (maps w)[m := f (maps w ! m)]\<rparr>"

text \<open>\<open>dependents.forEach\<close>: the callback runs on each element in order.\<close>

definition forEach :: "'a list \<Rightarrow> ('a \<Rightarrow> world \<Rightarrow> world) \<Rightarrow> world \<Rightarrow> world" where
  "forEach xs f w = foldl (\<lambda>w x. f x w) w xs"

definition markSubtractedQueryAsResolved :: "fetchRef \<Rightarrow> world \<Rightarrow> world" where
  "markSubtractedQueryAsResolved this w =
     (let queryID = getID (query (heap w ! this));
          w1 = updateMap (pendingFetchMap (heap w ! this)) (AList.delete queryID) w;
          w2 = updateFetch this
                 (\<lambda>pf. updateResolvedDeferred (pf\<lparr>resolvedSubtractedQuery := True\<rparr>)) w1
      in forEach (dependents (heap w2 ! this))
           (\<lambda>dependent. updateFetch dependent (markDependencyAsResolved queryID)) w2)"

definition markAsRejected :: "fetchRef \<Rightarrow> error \<Rightarrow> world \<Rightarrow> world" where
  "markAsRejected this err w =
     (let queryID = getID (query (heap w ! this));
          w1 = updateMap (pendingFetchMap (heap w ! this)) (AList.delete queryID) w;
          w2 = updateFetch this
                 (\<lambda>pf. updateResolvedDeferred (pf\<lparr>errors := errors pf @ [err]\<rparr>)) w1
      in forEach (dependents (heap w2 ! this))
           (\<lambda>dependent. updateFetch dependent (markDependencyAsRejected queryID err)) w2)"

definition addPendingDependency :: "fetchRef \<Rightarrow> fetchRef \<Rightarrow> world \<Rightarrow> world" where
  "addPendingDependency this pendingFetch w =
     (let queryID = getID (query (heap w ! pendingFetch));
          w1 = updateFetch this
                 (\<lambda>pf. pf\<lparr>pendingDependencyMap :=
                    AList.update queryID pendingFetch (pendingDependencyMap pf)\<rparr>) w
      in updateFetch pendingFetch (addDependent this) w1)"

text \<open>
  \<open>everyObject\<close> of fbjs: the callback runs on the values of the object in order until it
  returns false. The callback may assign variables of its closure (the state \<open>'s\<close>) and may
  throw.
\<close>

fun everyObject ::
  "('k \<times> 'v) list \<Rightarrow> ('v \<Rightarrow> 's \<Rightarrow> error + (bool \<times> 's)) \<Rightarrow> 's \<Rightarrow> error + (bool \<times> 's)" where
  "everyObject [] callback s = Inr (True, s)"
| "everyObject (kv # kvs) callback s =
     (case callback (snd kv) s of
        Inl e \<Rightarrow> Inl e
      | Inr (continue, s') \<Rightarrow>
          if continue then everyObject kvs callback s' else Inr (False, s'))"

text \<open>
  \<open>containsRelayQueryRootCall\<close> is not among the sources: it is the parameter \<open>crc\<close>.
  The variable \<open>query\<close> of \<open>_subtractPending\<close> is a \<open>diff\<close> of the query passed in:
  \<open>Same\<close> while it still is that query.
\<close>

type_synonym containsRootCall = "node \<Rightarrow> node \<Rightarrow> bool"

definition subtractPendingCallback ::
  "getField \<Rightarrow> containsRootCall \<Rightarrow> fetchRef \<Rightarrow> node \<Rightarrow> pending \<Rightarrow> diff \<times> world \<Rightarrow>
   error + (bool \<times> (diff \<times> world))" where
  "subtractPendingCallback gf crc this query0 pending s =
     (case resolve query0 (fst s) of
        None \<Rightarrow> Inr (False, s)
      | Some q \<Rightarrow>
          if crc (pendingQuery pending) q then
            (case subtractRelayQuery gf q (pendingQuery pending) of
               Inl e \<Rightarrow> Inl e
             | Inr subtractedQuery \<Rightarrow>
                 if subtractedQuery \<noteq> Same
                 then Inr (True, (subtractedQuery, addPendingDependency this (fetch pending) (snd s)))
                 else Inr (True, s))
          else Inr (True, s))"

definition subtractPending ::
  "getField \<Rightarrow> containsRootCall \<Rightarrow> fetchRef \<Rightarrow> node \<Rightarrow> world \<Rightarrow> error + (diff \<times> world)" where
  "subtractPending gf crc this query0 w =
     (case everyObject (maps w ! pendingFetchMap (heap w ! this))
             (subtractPendingCallback gf crc this query0) (Same, w) of
        Inl e \<Rightarrow> Inl e
      | Inr (b, s) \<Rightarrow> Inr s)"

text \<open>
  The constructor. The new object gets the next address. An exception of the subtraction
  leaves the constructor; what the heap holds then is not modelled.
\<close>

definition newPendingFetch :: "nat option \<Rightarrow> query \<Rightarrow> mapRef \<Rightarrow> pending_fetch" where
  "newPendingFetch fi q m =
     \<lparr>dependents = [], forceIndex = fi, pendingDependencyMap = [], pendingFetchMap = m,
      query = q, resolvedDeferred = [], resolvedSubtractedQuery = False,
      fetchedSubtractedQuery = False, errors = [], awaiting = None\<rparr>"

definition add ::
  "getField \<Rightarrow> containsRootCall \<Rightarrow> fetchMode \<Rightarrow> nat option \<Rightarrow> query \<Rightarrow> world \<Rightarrow>
   error + (fetchRef \<times> world)" where
  "add gf crc mode fi q w =
     (let this = length (heap w);
          queryID = getID q;
          w0 = w\<lparr>heap := heap w @ [newPendingFetch fi q (trackerMap w)]\<rparr>
      in case (if mode = PRELOAD then Inr (Same, w0)
               else (case subtractPending gf crc this (root q) w0 of
                       Inl e \<Rightarrow> Inl e
                     | Inr (subtractedQuery, w1) \<Rightarrow>
                         (case resolve (root q) subtractedQuery of
                            None \<Rightarrow> Inr (subtractedQuery, w1)
                          | Some sq \<Rightarrow> Inr (subtractedQuery, w1\<lparr>fetched := fetched w1 @ [sq]\<rparr>)))) of
           Inl e \<Rightarrow> Inl e
         | Inr (subtractedQuery, w2) \<Rightarrow>
             (let w3 = updateFetch this
                         (\<lambda>pf. pf\<lparr>fetchedSubtractedQuery := (subtractedQuery = Null),
                                  errors := []\<rparr>) w2
              in case resolve (root q) subtractedQuery of
                   Some sq \<Rightarrow>
                     Inr (this,
                       updateFetch this (\<lambda>pf. pf\<lparr>awaiting := Some sq\<rparr>)
                         (updateMap (pendingFetchMap (heap w3 ! this))
                            (AList.update queryID \<lparr>fetch = this, pendingQuery = sq\<rparr>) w3))
                 | None \<Rightarrow> Inr (this, markSubtractedQueryAsResolved this w3)))"

definition isResolvable :: "fetchRef \<Rightarrow> world \<Rightarrow> bool" where
  "isResolvable this w =
     (if fetchedSubtractedQuery (heap w ! this)
      then list_all (\<lambda>kv. fetchedSubtractedQuery (heap w ! snd kv))
             (pendingDependencyMap (heap w ! this))
      else False)"

definition hasPendingQueries :: "world \<Rightarrow> bool" where
  "hasPendingQueries w = hasItems (maps w ! trackerMap w)"

definition resetPending :: "world \<Rightarrow> world" where
  "resetPending w = w\<lparr>maps := maps w @ [[]], trackerMap := length (maps w)\<rparr>"

text \<open>
  The promise of a fetch settles: one of the two callbacks given to \<open>done\<close> runs, once.
\<close>

definition handleSubtractedQuerySuccess :: "fetchRef \<Rightarrow> node \<Rightarrow> result \<Rightarrow> world \<Rightarrow> world" where
  "handleSubtractedQuerySuccess this subtractedQuery res w =
     (let w1 = updateFetch this (\<lambda>pf. pf\<lparr>fetchedSubtractedQuery := True\<rparr>) w
      in w1\<lparr>taskQueue := taskQueue w1 @
           [\<lparr>taskFetch = this, taskQuery = subtractedQuery, taskResult = res\<rparr>]\<rparr>)"

definition handleSubtractedQueryFailure :: "fetchRef \<Rightarrow> node \<Rightarrow> error \<Rightarrow> world \<Rightarrow> world" where
  "handleSubtractedQueryFailure this subtractedQuery err w = markAsRejected this err w"

definition promiseResolved :: "fetchRef \<Rightarrow> result \<Rightarrow> world \<Rightarrow> world" where
  "promiseResolved this res w =
     (case awaiting (heap w ! this) of
        None \<Rightarrow> w
      | Some subtractedQuery \<Rightarrow>
          handleSubtractedQuerySuccess this subtractedQuery res
            (updateFetch this (\<lambda>pf. pf\<lparr>awaiting := None\<rparr>) w))"

definition promiseRejected :: "fetchRef \<Rightarrow> error \<Rightarrow> world \<Rightarrow> world" where
  "promiseRejected this err w =
     (case awaiting (heap w ! this) of
        None \<Rightarrow> w
      | Some subtractedQuery \<Rightarrow>
          handleSubtractedQueryFailure this subtractedQuery err
            (updateFetch this (\<lambda>pf. pf\<lparr>awaiting := None\<rparr>) w))"

definition responseNotObject :: error where
  "responseNotObject =
     Invariant ''RelayPendingQueryTracker: Expected response to be an object, got `%s`.''"

text \<open>
  The task queue runs its first task: the closure checks the response and calls
  \<open>handleQueryPayload\<close>, which returns or throws (\<open>thrown\<close>); then the callback given to
  \<open>done\<close> for that outcome runs.
\<close>

definition runTask :: "error option \<Rightarrow> world \<Rightarrow> world" where
  "runTask thrown w =
     (case taskQueue w of
        [] \<Rightarrow> w
      | t # ts \<Rightarrow>
          (let w1 = w\<lparr>taskQueue := ts\<rparr> in
           case taskResult t of
             None \<Rightarrow> markAsRejected (taskFetch t) responseNotObject w1
           | Some response \<Rightarrow>
               (let w2 = w1\<lparr>payloads := payloads w1 @
                           [(taskQuery t, response, forceIndex (heap w1 ! taskFetch t))]\<rparr>
                in case thrown of
                     None \<Rightarrow> markSubtractedQueryAsResolved (taskFetch t) w2
                   | Some err \<Rightarrow> markAsRejected (taskFetch t) err w2)))"

section \<open>Settlement of one fetch\<close>

text \<open>
  The condition of the spec for the future of a fetch to fire: its own subtracted query
  has resolved and its dependency map is empty, or an error has been recorded for it.
  What holds of a fetch between two events: \<open>resolve\<close> and \<open>reject\<close> were called at most
  once on its Deferred; the Deferred is settled exactly when that condition holds; a
  rejection carries the first error of the list; a resolution has the own query resolved
  and no dependency left.
\<close>

definition settleCondition :: "pending_fetch \<Rightarrow> bool" where
  "settleCondition pf =
     ((resolvedSubtractedQuery pf \<and> pendingDependencyMap pf = []) \<or> errors pf \<noteq> [])"

definition settledOnce :: "pending_fetch \<Rightarrow> bool" where
  "settledOnce pf =
     (length (resolvedDeferred pf) \<le> 1 \<and>
      (resolvedDeferred pf \<noteq> []) = settleCondition pf \<and>
      (\<forall>e. resolvedDeferred pf = [Rejected e] \<longrightarrow> errors pf \<noteq> [] \<and> e = errors pf ! 0) \<and>
      (resolvedDeferred pf = [Resolved] \<longrightarrow>
         resolvedSubtractedQuery pf \<and> pendingDependencyMap pf = []))"

text \<open>
  What an event does to a fetch: errors are only appended; a settled Deferred stays as it
  is; a Deferred that gets settled is rejected with the first error of the list when there
  is one, and resolved otherwise.
\<close>

definition firesRight :: "pending_fetch \<Rightarrow> pending_fetch \<Rightarrow> bool" where
  "firesRight pf pf' =
     ((\<exists>es. errors pf' = errors pf @ es) \<and>
      (resolvedDeferred pf \<noteq> [] \<longrightarrow> resolvedDeferred pf' = resolvedDeferred pf) \<and>
      (resolvedDeferred pf = [] \<and> resolvedDeferred pf' \<noteq> [] \<longrightarrow>
         resolvedDeferred pf' =
           [if errors pf' = [] then Resolved else Rejected (errors pf' ! 0)]))"

text \<open>The part of a fetch that settlement reads.\<close>

definition core ::
  "pending_fetch \<Rightarrow> error list \<times> deferred \<times> bool \<times> (queryID \<times> fetchRef) list" where
  "core pf = (errors pf, resolvedDeferred pf, resolvedSubtractedQuery pf, pendingDependencyMap pf)"

text \<open>
  Two kinds of changes of a fetch: \<open>quiet\<close> ones record no error, \<open>loud\<close> ones leave the
  part that settlement reads as it is, or record at least one error.
\<close>

definition quiet :: "pending_fetch \<Rightarrow> pending_fetch \<Rightarrow> bool" where
  "quiet pf pf' =
     (errors pf' = errors pf \<and> (settledOnce pf \<longrightarrow> settledOnce pf') \<and>
      (resolvedDeferred pf \<noteq> [] \<longrightarrow> resolvedDeferred pf' = resolvedDeferred pf))"

definition loud :: "pending_fetch \<Rightarrow> pending_fetch \<Rightarrow> bool" where
  "loud pf pf' =
     (core pf' = core pf \<or>
      ((\<exists>e es. errors pf' = errors pf @ e # es) \<and> (settledOnce pf \<longrightarrow> settledOnce pf') \<and>
       (resolvedDeferred pf \<noteq> [] \<longrightarrow> resolvedDeferred pf' = resolvedDeferred pf) \<and>
       (resolvedDeferred pf = [] \<longrightarrow> resolvedDeferred pf' = [Rejected (errors pf' ! 0)])))"

lemma settledOnce_core: "core pf' = core pf \<Longrightarrow> settledOnce pf' = settledOnce pf"
  by (simp add: core_def settledOnce_def settleCondition_def isSettled_def)

lemma quiet_refl: "quiet pf pf"
  by (simp add: quiet_def)

lemma quiet_trans: "quiet a b \<Longrightarrow> quiet b c \<Longrightarrow> quiet a c"
  by (auto simp: quiet_def)

lemma quiet_core: "core pf' = core pf \<Longrightarrow> quiet pf pf'"
  using settledOnce_core[of pf' pf] by (simp add: quiet_def) (simp add: core_def)

lemma loud_refl: "loud pf pf"
  by (simp add: loud_def)

lemma loud_core: "core pf' = core pf \<Longrightarrow> loud pf pf'"
  by (simp add: loud_def)

lemma loud_core_left: "core b = core a \<Longrightarrow> loud b c \<Longrightarrow> loud a c"
  using settledOnce_core[of b a] by (auto simp: loud_def core_def)

lemma loud_core_right: "loud a b \<Longrightarrow> core c = core b \<Longrightarrow> loud a c"
  using settledOnce_core[of c b] by (auto simp: loud_def core_def)

lemma loud_trans:
  assumes "loud a b" "loud b c"
  shows "loud a c"
proof (cases "core b = core a \<or> core c = core b")
  case True
  with assms show ?thesis by (auto intro: loud_core_left loud_core_right)
next
  case False
  from assms(1) False have A:
    "(\<exists>e es. errors b = errors a @ e # es) \<and> (settledOnce a \<longrightarrow> settledOnce b) \<and>
     (resolvedDeferred a \<noteq> [] \<longrightarrow> resolvedDeferred b = resolvedDeferred a) \<and>
     (resolvedDeferred a = [] \<longrightarrow> resolvedDeferred b = [Rejected (errors b ! 0)])"
    unfolding loud_def by blast
  from assms(2) False have B:
    "(\<exists>e es. errors c = errors b @ e # es) \<and> (settledOnce b \<longrightarrow> settledOnce c) \<and>
     (resolvedDeferred b \<noteq> [] \<longrightarrow> resolvedDeferred c = resolvedDeferred b) \<and>
     (resolvedDeferred b = [] \<longrightarrow> resolvedDeferred c = [Rejected (errors c ! 0)])"
    unfolding loud_def by blast
  from A obtain e es where ab: "errors b = errors a @ e # es" by blast
  from B obtain e' es' where bc: "errors c = errors b @ e' # es'" by blast
  have hd: "errors c ! 0 = errors b ! 0" using ab bc by (cases "errors a") simp_all
  have 1: "\<exists>e es. errors c = errors a @ e # es" using ab bc by simp
  have 2: "resolvedDeferred a = [] \<longrightarrow> resolvedDeferred c = [Rejected (errors c ! 0)]"
    using A B hd by auto
  have 3: "resolvedDeferred a \<noteq> [] \<longrightarrow> resolvedDeferred c = resolvedDeferred a"
    using A B by auto
  have 4: "settledOnce a \<longrightarrow> settledOnce c" using A B by blast
  show ?thesis unfolding loud_def using 1 2 3 4 by blast
qed

lemma quiet_markDependencyAsResolved: "quiet pf (markDependencyAsResolved q pf)"
  by (auto simp: quiet_def markDependencyAsResolved_def updateResolvedDeferred_def
      settledOnce_def settleCondition_def isSettled_def deferredIsSettled_def hasItems_def)

lemma quiet_selfResolved:
  "quiet pf (updateResolvedDeferred (pf\<lparr>resolvedSubtractedQuery := True\<rparr>))"
  by (auto simp: quiet_def updateResolvedDeferred_def
      settledOnce_def settleCondition_def isSettled_def deferredIsSettled_def hasItems_def)

lemma loud_markDependencyAsRejected: "loud pf (markDependencyAsRejected q err pf)"
  by (auto simp: loud_def markDependencyAsRejected_def updateResolvedDeferred_def
      settledOnce_def settleCondition_def isSettled_def deferredIsSettled_def hasItems_def nth_append)

lemma loud_selfRejected:
  "loud pf (updateResolvedDeferred (pf\<lparr>errors := errors pf @ [err]\<rparr>))"
  by (auto simp: loud_def updateResolvedDeferred_def
      settledOnce_def settleCondition_def isSettled_def deferredIsSettled_def hasItems_def nth_append)

lemma firesRight_quiet:
  "settledOnce pf \<Longrightarrow> quiet pf pf' \<Longrightarrow> firesRight pf pf'"
  by (auto simp: firesRight_def quiet_def settledOnce_def settleCondition_def deferredIsSettled_def isSettled_def
      length_Suc_conv le_Suc_eq) (metis settlement.exhaust)+

lemma firesRight_loud:
  "settledOnce pf \<Longrightarrow> loud pf pf' \<Longrightarrow> firesRight pf pf'"
  using firesRight_quiet[OF _ quiet_core, of pf pf'] by (auto simp: firesRight_def loud_def)

section \<open>Effects on the heap\<close>

text \<open>A relation between the states of a fetch, holding of every fetch of the heap.\<close>

definition heapRel :: "(pending_fetch \<Rightarrow> pending_fetch \<Rightarrow> bool) \<Rightarrow> world \<Rightarrow> world \<Rightarrow> bool" where
  "heapRel R w w' =
     (length (heap w') = length (heap w) \<and> (\<forall>r < length (heap w). R (heap w ! r) (heap w' ! r)))"

lemma heapRel_refl: "(\<And>pf. R pf pf) \<Longrightarrow> heap w' = heap w \<Longrightarrow> heapRel R w w'"
  by (simp add: heapRel_def)

lemma heapRel_trans:
  "(\<And>a b c. R a b \<Longrightarrow> R b c \<Longrightarrow> R a c) \<Longrightarrow> heapRel R w w' \<Longrightarrow> heapRel R w' w'' \<Longrightarrow>
   heapRel R w w''"
  unfolding heapRel_def by (metis (no_types, lifting))

lemma heapRel_quiet_trans:
  "heapRel quiet w w' \<Longrightarrow> heapRel quiet w' w'' \<Longrightarrow> heapRel quiet w w''"
  by (rule heapRel_trans[of quiet]) (rule quiet_trans)

lemma heapRel_loud_trans:
  "heapRel loud w w' \<Longrightarrow> heapRel loud w' w'' \<Longrightarrow> heapRel loud w w''"
  by (rule heapRel_trans[of loud]) (rule loud_trans)

lemma heapRel_mono: "(\<And>a b. R a b \<Longrightarrow> S a b) \<Longrightarrow> heapRel R w w' \<Longrightarrow> heapRel S w w'"
  by (simp add: heapRel_def)

lemma updateFetch_heapRel:
  assumes "\<And>pf. R pf pf" "\<And>pf. R pf (f pf)"
  shows "heapRel R w (updateFetch r f w)"
proof (cases "r < length (heap w)")
  case True
  with assms show ?thesis by (simp add: heapRel_def updateFetch_def nth_list_update)
next
  case False
  with assms show ?thesis by (simp add: heapRel_def updateFetch_def)
qed

lemma updateFetch_frame [simp]:
  "maps (updateFetch r f w) = maps w" "trackerMap (updateFetch r f w) = trackerMap w"
  "fetched (updateFetch r f w) = fetched w" "taskQueue (updateFetch r f w) = taskQueue w"
  "payloads (updateFetch r f w) = payloads w"
  "length (heap (updateFetch r f w)) = length (heap w)"
  by (simp_all add: updateFetch_def)

lemma updateMap_frame [simp]:
  "heap (updateMap m f w) = heap w" "trackerMap (updateMap m f w) = trackerMap w"
  "fetched (updateMap m f w) = fetched w" "taskQueue (updateMap m f w) = taskQueue w"
  "payloads (updateMap m f w) = payloads w"
  "length (maps (updateMap m f w)) = length (maps w)"
  by (simp_all add: updateMap_def)

lemma forEach_Nil [simp]: "forEach [] f w = w"
  by (simp add: forEach_def)

lemma forEach_Cons [simp]: "forEach (x # xs) f w = forEach xs f (f x w)"
  by (simp add: forEach_def)

lemma forEach_updateFetch_frame [simp]:
  "maps (forEach ds (\<lambda>d. updateFetch d (f d)) w) = maps w"
  "trackerMap (forEach ds (\<lambda>d. updateFetch d (f d)) w) = trackerMap w"
  "fetched (forEach ds (\<lambda>d. updateFetch d (f d)) w) = fetched w"
  "taskQueue (forEach ds (\<lambda>d. updateFetch d (f d)) w) = taskQueue w"
  "payloads (forEach ds (\<lambda>d. updateFetch d (f d)) w) = payloads w"
  "length (heap (forEach ds (\<lambda>d. updateFetch d (f d)) w)) = length (heap w)"
  by (induction ds arbitrary: w; simp)+

lemma forEach_heapRel:
  assumes refl: "\<And>pf. R pf pf" and trans: "\<And>a b c. R a b \<Longrightarrow> R b c \<Longrightarrow> R a c"
    and step: "\<And>d pf. R pf (f d pf)"
  shows "heapRel R w (forEach ds (\<lambda>d. updateFetch d (f d)) w)"
proof (induction ds arbitrary: w)
  case Nil
  then show ?case by (simp add: heapRel_refl refl)
next
  case (Cons d ds)
  have "heapRel R w (updateFetch d (f d) w)" by (rule updateFetch_heapRel) (rule refl step)+
  moreover have "heapRel R (updateFetch d (f d) w)
      (forEach ds (\<lambda>d. updateFetch d (f d)) (updateFetch d (f d) w))" by (rule Cons.IH)
  ultimately have "heapRel R w (forEach ds (\<lambda>d. updateFetch d (f d)) (updateFetch d (f d) w))"
    by (rule heapRel_trans[of R, rotated]) (rule trans)
  then show ?case by simp
qed

lemma markSubtractedQueryAsResolved_quiet:
  "heapRel quiet w (markSubtractedQueryAsResolved this w)"
proof -
  let ?q = "getID (query (heap w ! this))"
  let ?w1 = "updateMap (pendingFetchMap (heap w ! this)) (AList.delete ?q) w"
  let ?w2 = "updateFetch this (\<lambda>pf. updateResolvedDeferred (pf\<lparr>resolvedSubtractedQuery := True\<rparr>)) ?w1"
  have a: "heapRel quiet w ?w1" by (simp add: heapRel_refl quiet_refl)
  have b: "heapRel quiet ?w1 ?w2"
    by (rule updateFetch_heapRel) (rule quiet_refl quiet_selfResolved)+
  have c: "heapRel quiet ?w2 (forEach (dependents (heap ?w2 ! this))
      (\<lambda>dependent. updateFetch dependent (markDependencyAsResolved ?q)) ?w2)"
    by (rule forEach_heapRel) (rule quiet_refl quiet_markDependencyAsResolved | erule (1) quiet_trans)+
  have "heapRel quiet w ?w2" using a b by (rule heapRel_quiet_trans)
  then have "heapRel quiet w (forEach (dependents (heap ?w2 ! this))
      (\<lambda>dependent. updateFetch dependent (markDependencyAsResolved ?q)) ?w2)"
    using c by (rule heapRel_quiet_trans)
  then show ?thesis by (simp add: markSubtractedQueryAsResolved_def Let_def)
qed

lemma markAsRejected_loud:
  "heapRel loud w (markAsRejected this err w)"
proof -
  let ?q = "getID (query (heap w ! this))"
  let ?w1 = "updateMap (pendingFetchMap (heap w ! this)) (AList.delete ?q) w"
  let ?w2 = "updateFetch this (\<lambda>pf. updateResolvedDeferred (pf\<lparr>errors := errors pf @ [err]\<rparr>)) ?w1"
  have a: "heapRel loud w ?w1" by (simp add: heapRel_refl loud_refl)
  have b: "heapRel loud ?w1 ?w2"
    by (rule updateFetch_heapRel) (rule loud_refl loud_selfRejected)+
  have c: "heapRel loud ?w2 (forEach (dependents (heap ?w2 ! this))
      (\<lambda>dependent. updateFetch dependent (markDependencyAsRejected ?q err)) ?w2)"
    by (rule forEach_heapRel) (rule loud_refl loud_markDependencyAsRejected | erule (1) loud_trans)+
  have "heapRel loud w ?w2" using a b by (rule heapRel_loud_trans)
  then have "heapRel loud w (forEach (dependents (heap ?w2 ! this))
      (\<lambda>dependent. updateFetch dependent (markDependencyAsRejected ?q err)) ?w2)"
    using c by (rule heapRel_loud_trans)
  then show ?thesis by (simp add: markAsRejected_def Let_def)
qed

section \<open>The walk over the registry\<close>

text \<open>
  The walk of \<open>_subtractPending\<close> in the words of the spec, on the entries of the registry
  in order: once the remainder is null the walk stops; an entry whose query does not
  overlap is skipped; otherwise the query of the entry is subtracted from the running
  remainder, and when the result is not the same reference it becomes the remainder and
  an edge onto the fetch of the entry is recorded. The result is the final remainder and
  the edges in the order they were recorded.
\<close>

fun walkPending ::
  "getField \<Rightarrow> containsRootCall \<Rightarrow> node \<Rightarrow> diff \<Rightarrow> pending list \<Rightarrow>
   error + (diff \<times> fetchRef list)" where
  "walkPending gf crc query0 remainder [] = Inr (remainder, [])"
| "walkPending gf crc query0 remainder (entry # entries) =
     (case resolve query0 remainder of
        None \<Rightarrow> Inr (remainder, [])
      | Some q \<Rightarrow>
          if crc (pendingQuery entry) q then
            (case subtractRelayQuery gf q (pendingQuery entry) of
               Inl e \<Rightarrow> Inl e
             | Inr removed \<Rightarrow>
                 if removed = Same then walkPending gf crc query0 remainder entries
                 else (case walkPending gf crc query0 removed entries of
                         Inl e \<Rightarrow> Inl e
                       | Inr (final, edges) \<Rightarrow> Inr (final, fetch entry # edges)))
          else walkPending gf crc query0 remainder entries)"

lemma everyObject_walk:
  "(case everyObject reg (subtractPendingCallback gf crc this query0) (rem, w) of
      Inl e \<Rightarrow> Inl e | Inr (b, s) \<Rightarrow> Inr s) =
   (case walkPending gf crc query0 rem (map snd reg) of
      Inl e \<Rightarrow> Inl e
    | Inr (final, edges) \<Rightarrow> Inr (final, forEach edges (addPendingDependency this) w))"
proof (induction reg arbitrary: rem w)
  case Nil
  then show ?case by simp
next
  case (Cons kv reg)
  show ?case
  proof (cases "resolve query0 rem")
    case None
    then show ?thesis by (simp add: subtractPendingCallback_def)
  next
    case (Some q)
    show ?thesis
    proof (cases "crc (pendingQuery (snd kv)) q")
      case False
      with Some Cons.IH[of rem w] show ?thesis by (simp add: subtractPendingCallback_def)
    next
      case True
      show ?thesis
      proof (cases "subtractRelayQuery gf q (pendingQuery (snd kv))")
        case (Inl e)
        with Some True show ?thesis by (simp add: subtractPendingCallback_def)
      next
        case (Inr removed)
        show ?thesis
        proof (cases "removed = Same")
          case True
          with Some \<open>crc (pendingQuery (snd kv)) q\<close> Inr Cons.IH[of rem w] show ?thesis
            by (simp add: subtractPendingCallback_def)
        next
          case False
          with Some \<open>crc (pendingQuery (snd kv)) q\<close> Inr
            Cons.IH[of removed "addPendingDependency this (fetch (snd kv)) w"]
          show ?thesis
            by (simp add: subtractPendingCallback_def split: sum.splits prod.splits)
        qed
      qed
    qed
  qed
qed

lemma subtractPending_walk:
  "subtractPending gf crc this query0 w =
     (case walkPending gf crc query0 Same (map snd (maps w ! pendingFetchMap (heap w ! this))) of
        Inl e \<Rightarrow> Inl e
      | Inr (final, edges) \<Rightarrow> Inr (final, forEach edges (addPendingDependency this) w))"
  unfolding subtractPending_def by (rule everyObject_walk)

text \<open>What recording the edges does to the heap.\<close>

definition depMapOf :: "pending_fetch list \<Rightarrow> fetchRef list \<Rightarrow> (queryID \<times> fetchRef) list \<Rightarrow>
    (queryID \<times> fetchRef) list" where
  "depMapOf h edges m = foldl (\<lambda>m d. AList.update (getID (query (h ! d))) d m) m edges"

lemma addPendingDependency_frame [simp]:
  "maps (addPendingDependency this d w) = maps w"
  "trackerMap (addPendingDependency this d w) = trackerMap w"
  "fetched (addPendingDependency this d w) = fetched w"
  "taskQueue (addPendingDependency this d w) = taskQueue w"
  "payloads (addPendingDependency this d w) = payloads w"
  "length (heap (addPendingDependency this d w)) = length (heap w)"
  by (simp_all add: addPendingDependency_def Let_def)

lemma forEach_addPendingDependency_frame [simp]:
  "maps (forEach ds (addPendingDependency this) w) = maps w"
  "trackerMap (forEach ds (addPendingDependency this) w) = trackerMap w"
  "fetched (forEach ds (addPendingDependency this) w) = fetched w"
  "taskQueue (forEach ds (addPendingDependency this) w) = taskQueue w"
  "payloads (forEach ds (addPendingDependency this) w) = payloads w"
  "length (heap (forEach ds (addPendingDependency this) w)) = length (heap w)"
  by (induction ds arbitrary: w; simp)+

lemma addPendingDependency_heap:
  assumes "this < length (heap w)" "d < length (heap w)" "d \<noteq> this"
  shows "heap (addPendingDependency this d w) =
     (heap w)[this := (heap w ! this)\<lparr>pendingDependencyMap :=
                 AList.update (getID (query (heap w ! d))) d (pendingDependencyMap (heap w ! this))\<rparr>,
              d := addDependent this (heap w ! d)]"
  using assms by (simp add: addPendingDependency_def Let_def updateFetch_def)

lemma forEach_addPendingDependency_heap:
  assumes "this < length (heap w)" "\<forall>d \<in> set ds. d < length (heap w) \<and> d \<noteq> this"
  shows "heap (forEach ds (addPendingDependency this) w) ! this =
           (heap w ! this)\<lparr>pendingDependencyMap :=
              depMapOf (heap w) ds (pendingDependencyMap (heap w ! this))\<rparr> \<and>
         (\<forall>r. r < length (heap w) \<and> r \<noteq> this \<longrightarrow>
            heap (forEach ds (addPendingDependency this) w) ! r =
              (heap w ! r)\<lparr>dependents := dependents (heap w ! r) @ replicate (count_list ds r) this\<rparr>)"
  using assms
proof (induction ds arbitrary: w)
  case Nil
  then show ?case by (simp add: depMapOf_def)
next
  case (Cons d ds)
  let ?w1 = "addPendingDependency this d w"
  from Cons.prems have d: "d < length (heap w)" "d \<noteq> this" by simp_all
  have h1: "heap ?w1 =
     (heap w)[this := (heap w ! this)\<lparr>pendingDependencyMap :=
                 AList.update (getID (query (heap w ! d))) d (pendingDependencyMap (heap w ! this))\<rparr>,
              d := addDependent this (heap w ! d)]"
    using Cons.prems(1) d by (rule addPendingDependency_heap)
  have q: "getID (query (heap ?w1 ! r)) = getID (query (heap w ! r))" if "r < length (heap w)" for r
    using that Cons.prems(1) d by (simp add: h1 nth_list_update addDependent_def)
  have dm: "depMapOf (heap ?w1) ds m = depMapOf (heap w) ds m" for m
    unfolding depMapOf_def
    using Cons.prems(2) q by (intro foldl_cong) auto
  have pre: "this < length (heap ?w1)" "\<forall>d \<in> set ds. d < length (heap ?w1) \<and> d \<noteq> this"
    using Cons.prems by simp_all
  note ih = Cons.IH[OF pre]
  show ?case
  proof (intro conjI allI impI)
    show "heap (forEach (d # ds) (addPendingDependency this) w) ! this =
           (heap w ! this)\<lparr>pendingDependencyMap :=
              depMapOf (heap w) (d # ds) (pendingDependencyMap (heap w ! this))\<rparr>"
    proof -
      have t: "heap ?w1 ! this = (heap w ! this)\<lparr>pendingDependencyMap :=
          AList.update (getID (query (heap w ! d))) d (pendingDependencyMap (heap w ! this))\<rparr>"
        using Cons.prems(1) d by (simp add: h1)
      have c: "depMapOf (heap w) (d # ds) m =
          depMapOf (heap w) ds (AList.update (getID (query (heap w ! d))) d m)" for m
        by (simp add: depMapOf_def)
      from ih have "heap (forEach ds (addPendingDependency this) ?w1) ! this =
          (heap ?w1 ! this)\<lparr>pendingDependencyMap :=
              depMapOf (heap ?w1) ds (pendingDependencyMap (heap ?w1 ! this))\<rparr>" by blast
      then show ?thesis by (simp add: dm t c)
    qed
  next
    fix r assume r: "r < length (heap w) \<and> r \<noteq> this"
    with ih have "heap (forEach ds (addPendingDependency this) ?w1) ! r =
       (heap ?w1 ! r)\<lparr>dependents := dependents (heap ?w1 ! r) @ replicate (count_list ds r) this\<rparr>"
      by simp
    moreover have "heap ?w1 ! r = (if r = d then addDependent this (heap w ! d) else heap w ! r)"
      using r d Cons.prems(1) by (simp add: h1)
    ultimately
    show "heap (forEach (d # ds) (addPendingDependency this) w) ! r =
              (heap w ! r)\<lparr>dependents := dependents (heap w ! r) @
                 replicate (count_list (d # ds) r) this\<rparr>"
      by (cases "r = d") (simp_all add: addDependent_def replicate_app_Cons_same)
  qed
qed

section \<open>The constructor, step by step\<close>

text \<open>The heap once the object under construction has its first fields.\<close>

definition allocated :: "nat option \<Rightarrow> query \<Rightarrow> world \<Rightarrow> world" where
  "allocated fi q w = w\<lparr>heap := heap w @ [newPendingFetch fi q (trackerMap w)]\<rparr>"

lemma allocated_simps [simp]:
  "maps (allocated fi q w) = maps w" "trackerMap (allocated fi q w) = trackerMap w"
  "fetched (allocated fi q w) = fetched w" "taskQueue (allocated fi q w) = taskQueue w"
  "payloads (allocated fi q w) = payloads w"
  "length (heap (allocated fi q w)) = Suc (length (heap w))"
  "heap (allocated fi q w) ! length (heap w) = newPendingFetch fi q (trackerMap w)"
  "r < length (heap w) \<Longrightarrow> heap (allocated fi q w) ! r = heap w ! r"
  by (simp_all add: allocated_def nth_append)

text \<open>The fields of a fetch that are never assigned after the constructor.\<close>

definition identity :: "pending_fetch \<Rightarrow> nat option \<times> mapRef \<times> query" where
  "identity pf = (forceIndex pf, pendingFetchMap pf, query pf)"

definition sameIdentity :: "pending_fetch \<Rightarrow> pending_fetch \<Rightarrow> bool" where
  "sameIdentity pf pf' = (identity pf' = identity pf)"

lemma sameIdentity_refl: "sameIdentity pf pf"
  by (simp add: sameIdentity_def)

lemma sameIdentity_trans: "sameIdentity a b \<Longrightarrow> sameIdentity b c \<Longrightarrow> sameIdentity a c"
  by (simp add: sameIdentity_def)

lemma heapRel_sameIdentity_trans:
  "heapRel sameIdentity w w' \<Longrightarrow> heapRel sameIdentity w' w'' \<Longrightarrow> heapRel sameIdentity w w''"
  by (rule heapRel_trans[of sameIdentity]) (rule sameIdentity_trans)

lemma forEach_world_heapRel:
  assumes refl: "\<And>pf. R pf pf" and trans: "\<And>a b c. R a b \<Longrightarrow> R b c \<Longrightarrow> R a c"
    and step: "\<And>d w. heapRel R w (f d w)"
  shows "heapRel R w (forEach ds f w)"
proof (induction ds arbitrary: w)
  case Nil
  then show ?case by (simp add: heapRel_refl refl)
next
  case (Cons d ds)
  have "heapRel R w (f d w)" by (rule step)
  moreover have "heapRel R (f d w) (forEach ds f (f d w))" by (rule Cons.IH)
  ultimately have "heapRel R w (forEach ds f (f d w))"
    by (rule heapRel_trans[of R, rotated]) (rule trans)
  then show ?case by simp
qed

lemma addPendingDependency_sameIdentity:
  "heapRel sameIdentity w (addPendingDependency this d w)"
proof -
  let ?w1 = "updateFetch this (\<lambda>pf. pf\<lparr>pendingDependencyMap :=
      AList.update (getID (query (heap w ! d))) d (pendingDependencyMap pf)\<rparr>) w"
  have "heapRel sameIdentity w ?w1"
    by (rule updateFetch_heapRel) (simp_all add: sameIdentity_def identity_def)
  moreover have "heapRel sameIdentity ?w1 (updateFetch d (addDependent this) ?w1)"
    by (rule updateFetch_heapRel) (simp_all add: sameIdentity_def identity_def addDependent_def)
  ultimately show ?thesis
    unfolding addPendingDependency_def Let_def by (rule heapRel_sameIdentity_trans)
qed

lemma forEach_addPendingDependency_sameIdentity:
  "heapRel sameIdentity w (forEach ds (addPendingDependency this) w)"
  by (rule forEach_world_heapRel)
    (rule sameIdentity_refl addPendingDependency_sameIdentity | erule (1) sameIdentity_trans)+

lemma heapRel_sameIdentity_pendingFetchMap:
  "heapRel sameIdentity w w' \<Longrightarrow> r < length (heap w) \<Longrightarrow>
   pendingFetchMap (heap w' ! r) = pendingFetchMap (heap w ! r)"
  by (simp add: heapRel_def sameIdentity_def identity_def)

lemma add_PRELOAD:
  "add gf crc PRELOAD fi q w =
     Inr (length (heap w),
       updateFetch (length (heap w)) (\<lambda>pf. pf\<lparr>awaiting := Some (root q)\<rparr>)
         (updateMap (trackerMap w)
            (AList.update (getID q) \<lparr>fetch = length (heap w), pendingQuery = root q\<rparr>)
            (updateFetch (length (heap w))
               (\<lambda>pf. pf\<lparr>fetchedSubtractedQuery := False, errors := []\<rparr>) (allocated fi q w))))"
  by (simp add: add_def Let_def allocated_def[symmetric] updateFetch_def newPendingFetch_def
      allocated_def)

lemma add_other:
  assumes "mode \<noteq> PRELOAD"
  shows "add gf crc mode fi q w =
     (case walkPending gf crc (root q) Same (map snd (maps w ! trackerMap w)) of
        Inl e \<Rightarrow> Inl e
      | Inr (remainder, edges) \<Rightarrow>
          (let this = length (heap w);
               w1 = forEach edges (addPendingDependency this) (allocated fi q w)
           in case resolve (root q) remainder of
                None \<Rightarrow>
                  Inr (this, markSubtractedQueryAsResolved this
                    (updateFetch this
                       (\<lambda>pf. pf\<lparr>fetchedSubtractedQuery := True, errors := []\<rparr>) w1))
              | Some sq \<Rightarrow>
                  Inr (this,
                    updateFetch this (\<lambda>pf. pf\<lparr>awaiting := Some sq\<rparr>)
                      (updateMap (trackerMap w)
                         (AList.update (getID q) \<lparr>fetch = this, pendingQuery = sq\<rparr>)
                         (updateFetch this
                            (\<lambda>pf. pf\<lparr>fetchedSubtractedQuery := False, errors := []\<rparr>)
                            (w1\<lparr>fetched := fetched w1 @ [sq]\<rparr>))))))"
proof -
  have pm: "pendingFetchMap (heap (allocated fi q w) ! length (heap w)) = trackerMap w"
    by (simp add: newPendingFetch_def)
  have sp: "subtractPending gf crc (length (heap w)) (root q) (allocated fi q w) =
     (case walkPending gf crc (root q) Same (map snd (maps w ! trackerMap w)) of
        Inl e \<Rightarrow> Inl e
      | Inr (final, edges) \<Rightarrow>
          Inr (final, forEach edges (addPendingDependency (length (heap w))) (allocated fi q w)))"
    by (simp add: subtractPending_walk newPendingFetch_def)
  have pm2: "pendingFetchMap
      (heap (forEach edges (addPendingDependency (length (heap w))) (allocated fi q w))
        ! length (heap w)) = trackerMap w" for edges
    using heapRel_sameIdentity_pendingFetchMap[OF forEach_addPendingDependency_sameIdentity,
        of "length (heap w)" "allocated fi q w" edges "length (heap w)"]
    by (simp add: newPendingFetch_def)
  show ?thesis
  proof (cases "walkPending gf crc (root q) Same (map snd (maps w ! trackerMap w))")
    case (Inl e)
    with assms sp show ?thesis by (simp add: add_def Let_def allocated_def[symmetric])
  next
    case (Inr p)
    obtain remainder edges where p: "p = (remainder, edges)" by (cases p)
    show ?thesis
    proof (cases "resolve (root q) remainder")
      case None
      then have "remainder = Null" by (cases remainder) simp_all
      with assms sp Inr p None show ?thesis
        by (simp add: add_def Let_def allocated_def[symmetric])
    next
      case (Some sq)
      then have "remainder \<noteq> Null" by (cases remainder) simp_all
      with assms sp Inr p Some pm2[of edges] show ?thesis
        by (simp add: add_def Let_def allocated_def[symmetric] updateFetch_def)
    qed
  qed
qed

section \<open>Every operation of the tracker, seen from one fetch\<close>

text \<open>
  A fetch is \<open>fresh\<close> while nothing was recorded on it; \<open>calm\<close> changes are the quiet and
  the loud ones.
\<close>

definition fresh :: "pending_fetch \<Rightarrow> bool" where
  "fresh pf = (errors pf = [] \<and> resolvedDeferred pf = [] \<and> \<not> resolvedSubtractedQuery pf)"

lemma fresh_settledOnce: "fresh pf \<Longrightarrow> settledOnce pf"
  by (simp add: fresh_def settledOnce_def settleCondition_def isSettled_def deferredIsSettled_def)

definition sameCore :: "pending_fetch \<Rightarrow> pending_fetch \<Rightarrow> bool" where
  "sameCore pf pf' = (core pf' = core pf)"

definition calm :: "pending_fetch \<Rightarrow> pending_fetch \<Rightarrow> bool" where
  "calm pf pf' = (quiet pf pf' \<or> loud pf pf')"

lemma heapRel_sameCore_trans:
  "heapRel sameCore w w' \<Longrightarrow> heapRel sameCore w' w'' \<Longrightarrow> heapRel sameCore w w''"
  by (rule heapRel_trans[of sameCore]) (simp add: sameCore_def)

lemma heapRel_sameCore_quiet:
  "heapRel sameCore w w' \<Longrightarrow> heapRel quiet w' w'' \<Longrightarrow> heapRel quiet w w''"
  unfolding heapRel_def sameCore_def by (metis quiet_core quiet_trans)

lemma heapRel_sameCore_loud:
  "heapRel sameCore w w' \<Longrightarrow> heapRel loud w' w'' \<Longrightarrow> heapRel loud w w''"
  unfolding heapRel_def sameCore_def by (metis loud_core_left)

lemma updateFetch_sameCore:
  "(\<And>pf. core (f pf) = core pf) \<Longrightarrow> heapRel sameCore w (updateFetch r f w)"
  by (rule updateFetch_heapRel) (simp_all add: sameCore_def)

lemma promiseResolved_sameCore: "heapRel sameCore w (promiseResolved r res w)"
proof (cases "awaiting (heap w ! r)")
  case None
  then show ?thesis by (simp add: promiseResolved_def heapRel_def sameCore_def)
next
  case (Some sq)
  let ?w1 = "updateFetch r (\<lambda>pf. pf\<lparr>awaiting := None\<rparr>) w"
  let ?w2 = "updateFetch r (\<lambda>pf. pf\<lparr>fetchedSubtractedQuery := True\<rparr>) ?w1"
  have "heapRel sameCore w ?w1" by (rule updateFetch_sameCore) (simp add: core_def)
  moreover have "heapRel sameCore ?w1 ?w2" by (rule updateFetch_sameCore) (simp add: core_def)
  ultimately have "heapRel sameCore w ?w2" by (rule heapRel_sameCore_trans)
  then show ?thesis
    using Some by (simp add: promiseResolved_def handleSubtractedQuerySuccess_def Let_def heapRel_def)
qed

lemma promiseRejected_loud: "heapRel loud w (promiseRejected r err w)"
proof (cases "awaiting (heap w ! r)")
  case None
  then show ?thesis by (simp add: promiseRejected_def heapRel_def loud_refl)
next
  case (Some sq)
  let ?w1 = "updateFetch r (\<lambda>pf. pf\<lparr>awaiting := None\<rparr>) w"
  have "heapRel sameCore w ?w1" by (rule updateFetch_sameCore) (simp add: core_def)
  moreover have "heapRel loud ?w1 (markAsRejected r err ?w1)" by (rule markAsRejected_loud)
  ultimately have "heapRel loud w (markAsRejected r err ?w1)" by (rule heapRel_sameCore_loud)
  then show ?thesis
    using Some by (simp add: promiseRejected_def handleSubtractedQueryFailure_def)
qed

lemma heapRel_heap_cong: "heap v = heap w \<Longrightarrow> heapRel R v w' = heapRel R w w'"
  by (simp add: heapRel_def)

lemma runTask_calm: "heapRel calm w (runTask thrown w)"
proof (cases "taskQueue w")
  case Nil
  then show ?thesis by (simp add: runTask_def heapRel_def calm_def quiet_refl)
next
  case (Cons t ts)
  let ?w1 = "w\<lparr>taskQueue := ts\<rparr>"
  show ?thesis
  proof (cases "taskResult t")
    case None
    have "heapRel loud ?w1 (markAsRejected (taskFetch t) responseNotObject ?w1)"
      by (rule markAsRejected_loud)
    then have "heapRel loud w (markAsRejected (taskFetch t) responseNotObject ?w1)"
      by (simp add: heapRel_def)
    then have "heapRel calm w (markAsRejected (taskFetch t) responseNotObject ?w1)"
      by (rule heapRel_mono[rotated]) (simp add: calm_def)
    with Cons None show ?thesis by (simp add: runTask_def)
  next
    case (Some response)
    let ?w2 = "?w1\<lparr>payloads := payloads ?w1 @
        [(taskQuery t, response, forceIndex (heap ?w1 ! taskFetch t))]\<rparr>"
    show ?thesis
    proof (cases thrown)
      case None
      have "heapRel quiet ?w2 (markSubtractedQueryAsResolved (taskFetch t) ?w2)"
        by (rule markSubtractedQueryAsResolved_quiet)
      then have "heapRel quiet w (markSubtractedQueryAsResolved (taskFetch t) ?w2)"
        by (simp add: heapRel_def)
      then have "heapRel calm w (markSubtractedQueryAsResolved (taskFetch t) ?w2)"
        by (rule heapRel_mono[rotated]) (simp add: calm_def)
      with Cons Some None show ?thesis by (simp add: runTask_def Let_def)
    next
      case (Some err)
      have "heapRel loud ?w2 (markAsRejected (taskFetch t) err ?w2)"
        by (rule markAsRejected_loud)
      then have "heapRel loud w (markAsRejected (taskFetch t) err ?w2)"
        by (simp add: heapRel_def)
      then have "heapRel calm w (markAsRejected (taskFetch t) err ?w2)"
        by (rule heapRel_mono[rotated]) (simp add: calm_def)
      with Cons \<open>taskResult t = Some response\<close> Some show ?thesis
        by (simp add: runTask_def Let_def)
    qed
  qed
qed

text \<open>The constructor: the fetches that were there, and the new one.\<close>

lemma updateFetch_nth:
  "heap (updateFetch r f w) ! r' =
     (if r' = r \<and> r < length (heap w) then f (heap w ! r) else heap w ! r')"
proof (cases "r < length (heap w)")
  case True
  then show ?thesis by (simp add: updateFetch_def nth_list_update)
next
  case False
  then have "(heap w)[r := f (heap w ! r)] = heap w" by (simp add: list_update_beyond)
  with False show ?thesis by (simp add: updateFetch_def)
qed

lemma forEach_addPendingDependency_others:
  "r \<noteq> this \<Longrightarrow> r < length (heap w) \<Longrightarrow>
   core (heap (forEach ds (addPendingDependency this) w) ! r) = core (heap w ! r)"
proof (induction ds arbitrary: w)
  case Nil
  then show ?case by simp
next
  case (Cons d ds)
  have "core (heap (addPendingDependency this d w) ! r) = core (heap w ! r)"
    using Cons.prems
    by (simp add: addPendingDependency_def Let_def updateFetch_nth core_def addDependent_def)
  with Cons.IH[of "addPendingDependency this d w"] Cons.prems show ?case by simp
qed

definition keepsFresh :: "pending_fetch \<Rightarrow> pending_fetch \<Rightarrow> bool" where
  "keepsFresh pf pf' = (fresh pf \<longrightarrow> fresh pf')"

lemma addPendingDependency_keepsFresh: "heapRel keepsFresh w (addPendingDependency this d w)"
proof -
  let ?w1 = "updateFetch this (\<lambda>pf. pf\<lparr>pendingDependencyMap :=
      AList.update (getID (query (heap w ! d))) d (pendingDependencyMap pf)\<rparr>) w"
  have "heapRel keepsFresh w ?w1"
    by (rule updateFetch_heapRel) (simp_all add: keepsFresh_def fresh_def)
  moreover have "heapRel keepsFresh ?w1 (updateFetch d (addDependent this) ?w1)"
    by (rule updateFetch_heapRel) (simp_all add: keepsFresh_def fresh_def addDependent_def)
  ultimately show ?thesis
    unfolding addPendingDependency_def Let_def
    by (rule heapRel_trans[of keepsFresh, rotated]) (simp add: keepsFresh_def)
qed

lemma forEach_addPendingDependency_keepsFresh:
  "heapRel keepsFresh w (forEach ds (addPendingDependency this) w)"
  by (rule forEach_world_heapRel)
    (rule addPendingDependency_keepsFresh | simp add: keepsFresh_def)+

lemma add_step:
  assumes "add gf crc mode fi q w = Inr (this, w')"
  shows "length (heap w') = Suc (length (heap w)) \<and>
         (\<forall>r < length (heap w). quiet (heap w ! r) (heap w' ! r)) \<and>
         settledOnce (heap w' ! length (heap w))"
proof (cases "mode = PRELOAD")
  case True
  with assms have w': "w' = updateFetch (length (heap w)) (\<lambda>pf. pf\<lparr>awaiting := Some (root q)\<rparr>)
         (updateMap (trackerMap w)
            (AList.update (getID q) \<lparr>fetch = length (heap w), pendingQuery = root q\<rparr>)
            (updateFetch (length (heap w))
               (\<lambda>pf. pf\<lparr>fetchedSubtractedQuery := False, errors := []\<rparr>) (allocated fi q w)))"
    by (auto simp: add_PRELOAD)
  have "fresh (heap w' ! length (heap w))"
    by (simp add: w' updateFetch_nth fresh_def newPendingFetch_def)
  moreover have "heap w' ! r = heap w ! r" if "r < length (heap w)" for r
    using that by (simp add: w' updateFetch_nth)
  ultimately show ?thesis by (simp add: w' fresh_settledOnce quiet_refl)
next
  case False
  let ?n = "length (heap w)"
  from assms False obtain remainder edges where
    wp: "walkPending gf crc (root q) Same (map snd (maps w ! trackerMap w)) = Inr (remainder, edges)"
    by (cases "walkPending gf crc (root q) Same (map snd (maps w ! trackerMap w))")
      (auto simp: add_other)
  let ?w1 = "forEach edges (addPendingDependency ?n) (allocated fi q w)"
  have len1: "length (heap ?w1) = Suc (length (heap w))" by simp
  have old1: "core (heap ?w1 ! r) = core (heap w ! r)" if "r < length (heap w)" for r
    using that forEach_addPendingDependency_others[of r ?n "allocated fi q w" edges] by simp
  have "fresh (heap (allocated fi q w) ! ?n)" by (simp add: fresh_def newPendingFetch_def)
  with forEach_addPendingDependency_keepsFresh[of "allocated fi q w" edges ?n]
  have new1: "fresh (heap ?w1 ! ?n)" by (simp add: heapRel_def keepsFresh_def)
  show ?thesis
  proof (cases "resolve (root q) remainder")
    case None
    let ?w3 = "updateFetch ?n (\<lambda>pf. pf\<lparr>fetchedSubtractedQuery := True, errors := []\<rparr>) ?w1"
    from assms False wp None have w': "w' = markSubtractedQueryAsResolved ?n ?w3"
      by (auto simp: add_other Let_def)
    have q: "heapRel quiet ?w3 w'" unfolding w' by (rule markSubtractedQueryAsResolved_quiet)
    have len3: "length (heap ?w3) = Suc (length (heap w))" by simp
    have old3: "core (heap ?w3 ! r) = core (heap w ! r)" if "r < length (heap w)" for r
      using that old1[of r] by (simp add: updateFetch_nth)
    have new3: "fresh (heap ?w3 ! ?n)" using new1 by (simp add: updateFetch_nth fresh_def)
    have "quiet (heap w ! r) (heap w' ! r)" if "r < length (heap w)" for r
    proof -
      from that q len3 have "quiet (heap ?w3 ! r) (heap w' ! r)" by (simp add: heapRel_def)
      moreover have "quiet (heap w ! r) (heap ?w3 ! r)" using old3[OF that] by (rule quiet_core)
      ultimately show ?thesis by (rule quiet_trans[rotated])
    qed
    moreover from q len3 have "quiet (heap ?w3 ! ?n) (heap w' ! ?n)"
      by (simp add: heapRel_def)
    with new3 have "settledOnce (heap w' ! ?n)" by (simp add: quiet_def fresh_settledOnce)
    moreover from q len3 have "length (heap w') = Suc (length (heap w))" by (simp add: heapRel_def)
    ultimately show ?thesis by simp
  next
    case (Some sq)
    let ?w2 = "?w1\<lparr>fetched := fetched ?w1 @ [sq]\<rparr>"
    from assms False wp Some have w': "w' =
        updateFetch ?n (\<lambda>pf. pf\<lparr>awaiting := Some sq\<rparr>)
          (updateMap (trackerMap w)
             (AList.update (getID q) \<lparr>fetch = ?n, pendingQuery = sq\<rparr>)
             (updateFetch ?n
                (\<lambda>pf. pf\<lparr>fetchedSubtractedQuery := False, errors := []\<rparr>) ?w2))"
      by (auto simp: add_other Let_def)
    have "fresh (heap w' ! ?n)" using new1 by (simp add: w' updateFetch_nth fresh_def)
    moreover have "quiet (heap w ! r) (heap w' ! r)" if "r < length (heap w)" for r
    proof -
      have "heap w' ! r = heap ?w1 ! r" using that by (simp add: w' updateFetch_nth)
      with old1[OF that] show ?thesis by (simp add: quiet_core)
    qed
    ultimately show ?thesis by (simp add: w' fresh_settledOnce)
  qed
qed

section \<open>The worlds the tracker can reach\<close>

text \<open>
  An event: a call of \<open>add\<close> that returns, a call of \<open>resetPending\<close>, the promise of a
  fetch resolving or rejecting, the task queue running its first task. The worlds that can
  be reached are those that a sequence of events leads to from a new tracker.
\<close>

inductive step :: "getField \<Rightarrow> containsRootCall \<Rightarrow> world \<Rightarrow> world \<Rightarrow> bool"
  for gf :: getField and crc :: containsRootCall where
  stepAdd: "add gf crc mode fi q w = Inr (r, w') \<Longrightarrow> step gf crc w w'"
| stepReset: "step gf crc w (resetPending w)"
| stepResolved: "r < length (heap w) \<Longrightarrow> step gf crc w (promiseResolved r res w)"
| stepRejected: "r < length (heap w) \<Longrightarrow> step gf crc w (promiseRejected r err w)"
| stepTask: "step gf crc w (runTask thrown w)"

inductive reachable :: "getField \<Rightarrow> containsRootCall \<Rightarrow> world \<Rightarrow> bool"
  for gf :: getField and crc :: containsRootCall where
  reachInit: "reachable gf crc newTracker"
| reachStep: "reachable gf crc w \<Longrightarrow> step gf crc w w' \<Longrightarrow> reachable gf crc w'"

lemma calm_settledOnce: "calm pf pf' \<Longrightarrow> settledOnce pf \<Longrightarrow> settledOnce pf'"
  using settledOnce_core[of pf' pf] by (auto simp: calm_def quiet_def loud_def)

lemma step_calm:
  assumes "step gf crc w w'"
  shows "length (heap w) \<le> length (heap w') \<and>
         (\<forall>r < length (heap w). calm (heap w ! r) (heap w' ! r)) \<and>
         (\<forall>r. length (heap w) \<le> r \<and> r < length (heap w') \<longrightarrow> settledOnce (heap w' ! r))"
  using assms
proof cases
  case (stepAdd mode fi q r)
  from add_step[OF stepAdd] show ?thesis
    by (auto simp: calm_def less_Suc_eq le_less)
next
  case stepReset
  then show ?thesis by (auto simp: resetPending_def calm_def quiet_refl)
next
  case (stepResolved r res)
  from promiseResolved_sameCore[of w r res] show ?thesis
    unfolding stepResolved(1) by (auto simp: heapRel_def sameCore_def calm_def quiet_core)
next
  case (stepRejected r err)
  from promiseRejected_loud[of w r err] show ?thesis
    unfolding stepRejected(1) by (auto simp: heapRel_def calm_def)
next
  case (stepTask thrown)
  from runTask_calm[of w thrown] show ?thesis
    unfolding stepTask by (auto simp: heapRel_def)
qed

lemma reachable_settledOnce:
  "reachable gf crc w \<Longrightarrow> r < length (heap w) \<Longrightarrow> settledOnce (heap w ! r)"
proof (induction arbitrary: r rule: reachable.induct)
  case reachInit
  then show ?case by (simp add: newTracker_def)
next
  case (reachStep w w')
  from step_calm[OF reachStep.hyps(2)] have
    c: "\<forall>r < length (heap w). calm (heap w ! r) (heap w' ! r)" and
    n: "\<forall>r. length (heap w) \<le> r \<and> r < length (heap w') \<longrightarrow> settledOnce (heap w' ! r)"
    by simp_all
  show ?case
  proof (cases "r < length (heap w)")
    case True
    with c reachStep.IH[of r] show ?thesis by (auto intro: calm_settledOnce)
  next
    case False
    with n reachStep.prems show ?thesis by simp
  qed
qed

section \<open>The edges and the registry after the constructor\<close>

lemma updateResolvedDeferred_fields [simp]:
  "dependents (updateResolvedDeferred pf) = dependents pf"
  "forceIndex (updateResolvedDeferred pf) = forceIndex pf"
  "pendingDependencyMap (updateResolvedDeferred pf) = pendingDependencyMap pf"
  "pendingFetchMap (updateResolvedDeferred pf) = pendingFetchMap pf"
  "query (updateResolvedDeferred pf) = query pf"
  "resolvedSubtractedQuery (updateResolvedDeferred pf) = resolvedSubtractedQuery pf"
  "fetchedSubtractedQuery (updateResolvedDeferred pf) = fetchedSubtractedQuery pf"
  "errors (updateResolvedDeferred pf) = errors pf"
  "awaiting (updateResolvedDeferred pf) = awaiting pf"
  by (simp_all add: updateResolvedDeferred_def)

lemma updateMap_nth:
  "m < length (maps w) \<Longrightarrow> maps (updateMap m f w) ! m = f (maps w ! m)"
  by (simp add: updateMap_def)

lemma walkPending_edges:
  "walkPending gf crc query0 remainder entries = Inr (final, edges) \<Longrightarrow>
   set edges \<subseteq> fetch ` set entries"
proof (induction entries arbitrary: remainder final edges)
  case Nil
  then show ?case by simp
next
  case (Cons entry entries)
  show ?case
  proof (cases "resolve query0 remainder")
    case None
    with Cons.prems show ?thesis by simp
  next
    case (Some q)
    show ?thesis
    proof (cases "crc (pendingQuery entry) q")
      case False
      with Some Cons.prems Cons.IH[of remainder final edges] show ?thesis by auto
    next
      case True
      with Some Cons.prems obtain removed where
        sub: "subtractRelayQuery gf q (pendingQuery entry) = Inr removed"
        by (cases "subtractRelayQuery gf q (pendingQuery entry)") auto
      show ?thesis
      proof (cases "removed = Same")
        case True
        with Some \<open>crc (pendingQuery entry) q\<close> sub Cons.prems Cons.IH[of remainder final edges]
        show ?thesis by auto
      next
        case False
        with Some \<open>crc (pendingQuery entry) q\<close> sub Cons.prems obtain rest where
          "walkPending gf crc query0 removed entries = Inr (final, rest)" "edges = fetch entry # rest"
          by (auto split: sum.splits prod.splits)
        with Cons.IH[of removed final rest] show ?thesis by auto
      qed
    qed
  qed
qed

lemma depMapOf_cong:
  "\<forall>d \<in> set ds. h ! d = h' ! d \<Longrightarrow> depMapOf h ds m = depMapOf h' ds m"
  unfolding depMapOf_def by (intro foldl_cong) auto

lemma markSubtractedQueryAsResolved_alone:
  assumes "dependents (heap w ! this) = []"
  shows "markSubtractedQueryAsResolved this w =
     updateFetch this (\<lambda>pf. updateResolvedDeferred (pf\<lparr>resolvedSubtractedQuery := True\<rparr>))
       (updateMap (pendingFetchMap (heap w ! this))
          (AList.delete (getID (query (heap w ! this)))) w)"
  using assms by (simp add: markSubtractedQueryAsResolved_def Let_def updateFetch_nth)

section \<open>What the settlement of a fetch leaves untouched\<close>

lemma forEach_updateFetch_sameIdentity:
  "(\<And>d pf. identity (f d pf) = identity pf) \<Longrightarrow>
   heapRel sameIdentity w (forEach ds (\<lambda>d. updateFetch d (f d)) w)"
  by (rule forEach_heapRel) (simp_all add: sameIdentity_def)

lemma identity_updateResolvedDeferred [simp]:
  "identity (updateResolvedDeferred pf) = identity pf"
  by (simp add: identity_def)

lemma markSubtractedQueryAsResolved_sameIdentity:
  "heapRel sameIdentity w (markSubtractedQueryAsResolved this w)"
proof -
  let ?q = "getID (query (heap w ! this))"
  let ?w1 = "updateMap (pendingFetchMap (heap w ! this)) (AList.delete ?q) w"
  let ?w2 = "updateFetch this (\<lambda>pf. updateResolvedDeferred (pf\<lparr>resolvedSubtractedQuery := True\<rparr>)) ?w1"
  have "heapRel sameIdentity ?w1 ?w2"
    by (rule updateFetch_heapRel) (simp_all add: sameIdentity_def, simp add: identity_def)
  then have "heapRel sameIdentity w ?w2" by (simp add: heapRel_def)
  moreover have "heapRel sameIdentity ?w2 (forEach (dependents (heap ?w2 ! this))
      (\<lambda>dependent. updateFetch dependent (markDependencyAsResolved ?q)) ?w2)"
    by (rule forEach_updateFetch_sameIdentity)
      (simp add: markDependencyAsResolved_def, simp add: identity_def)
  ultimately show ?thesis
    unfolding markSubtractedQueryAsResolved_def Let_def by (rule heapRel_sameIdentity_trans)
qed

lemma markAsRejected_sameIdentity:
  "heapRel sameIdentity w (markAsRejected this err w)"
proof -
  let ?q = "getID (query (heap w ! this))"
  let ?w1 = "updateMap (pendingFetchMap (heap w ! this)) (AList.delete ?q) w"
  let ?w2 = "updateFetch this (\<lambda>pf. updateResolvedDeferred (pf\<lparr>errors := errors pf @ [err]\<rparr>)) ?w1"
  have "heapRel sameIdentity ?w1 ?w2"
    by (rule updateFetch_heapRel) (simp_all add: sameIdentity_def, simp add: identity_def)
  then have "heapRel sameIdentity w ?w2" by (simp add: heapRel_def)
  moreover have "heapRel sameIdentity ?w2 (forEach (dependents (heap ?w2 ! this))
      (\<lambda>dependent. updateFetch dependent (markDependencyAsRejected ?q err)) ?w2)"
    by (rule forEach_updateFetch_sameIdentity)
      (simp add: markDependencyAsRejected_def, simp add: identity_def)
  ultimately show ?thesis
    unfolding markAsRejected_def Let_def by (rule heapRel_sameIdentity_trans)
qed

lemma markSubtractedQueryAsResolved_frame [simp]:
  "trackerMap (markSubtractedQueryAsResolved this w) = trackerMap w"
  "fetched (markSubtractedQueryAsResolved this w) = fetched w"
  "taskQueue (markSubtractedQueryAsResolved this w) = taskQueue w"
  "payloads (markSubtractedQueryAsResolved this w) = payloads w"
  by (simp_all add: markSubtractedQueryAsResolved_def Let_def)

lemma markAsRejected_frame [simp]:
  "trackerMap (markAsRejected this err w) = trackerMap w"
  "fetched (markAsRejected this err w) = fetched w"
  "taskQueue (markAsRejected this err w) = taskQueue w"
  "payloads (markAsRejected this err w) = payloads w"
  by (simp_all add: markAsRejected_def Let_def)

lemma markSubtractedQueryAsResolved_maps:
  "maps (markSubtractedQueryAsResolved this w) =
     (maps w)[pendingFetchMap (heap w ! this) :=
        AList.delete (getID (query (heap w ! this))) (maps w ! pendingFetchMap (heap w ! this))]"
  by (simp add: markSubtractedQueryAsResolved_def Let_def) (simp add: updateMap_def)

lemma markAsRejected_maps:
  "maps (markAsRejected this err w) =
     (maps w)[pendingFetchMap (heap w ! this) :=
        AList.delete (getID (query (heap w ! this))) (maps w ! pendingFetchMap (heap w ! this))]"
  by (simp add: markAsRejected_def Let_def) (simp add: updateMap_def)

text \<open>Running the tasks of the queue, each with what \<open>handleQueryPayload\<close> does in it.\<close>

fun drain :: "error option list \<Rightarrow> world \<Rightarrow> world" where
  "drain [] w = w"
| "drain (thrown # rest) w = drain rest (runTask thrown w)"

lemma runTask_queue: "taskQueue (runTask thrown w) = tl (taskQueue w)"
  by (cases "taskQueue w")
    (auto simp: runTask_def Let_def split: option.splits)

lemma runTask_sameIdentity: "heapRel sameIdentity w (runTask thrown w)"
proof (cases "taskQueue w")
  case Nil
  then show ?thesis by (simp add: runTask_def heapRel_def sameIdentity_def)
next
  case (Cons t ts)
  have a: "heapRel sameIdentity w (markAsRejected r e v)" if "heap v = heap w" for r e v
    using markAsRejected_sameIdentity[of v r e] that by (simp add: heapRel_def)
  have b: "heapRel sameIdentity w (markSubtractedQueryAsResolved r v)" if "heap v = heap w" for r v
    using markSubtractedQueryAsResolved_sameIdentity[of v r] that by (simp add: heapRel_def)
  from Cons show ?thesis
    by (auto simp: runTask_def Let_def a b split: option.splits)
qed

lemma runTask_head:
  assumes "taskQueue w = t # ts" "taskResult t = Some response"
  shows "payloads (runTask thrown w) =
     payloads w @ [(taskQuery t, response, forceIndex (heap w ! taskFetch t))]"
  using assms by (auto simp: runTask_def Let_def split: option.splits)

lemma runTask_payloads_grow: "\<exists>ps. payloads (runTask thrown w) = payloads w @ ps"
  by (cases "taskQueue w") (auto simp: runTask_def Let_def split: option.splits)

lemma drain_payloads_grow: "\<exists>ps. payloads (drain ths w) = payloads w @ ps"
proof (induction ths arbitrary: w)
  case Nil
  then show ?case by simp
next
  case (Cons th ths)
  from runTask_payloads_grow[of th w] obtain ps where
    "payloads (runTask th w) = payloads w @ ps" by blast
  moreover from Cons.IH[of "runTask th w"] obtain qs where
    "payloads (drain ths (runTask th w)) = payloads (runTask th w) @ qs" by blast
  ultimately show ?case by simp
qed

lemma drain_delivers:
  assumes "taskQueue w = ts @ t # rest" "taskResult t = Some response"
    "length ths = Suc (length ts)" "taskFetch t < length (heap w)"
  shows "(taskQuery t, response, forceIndex (heap w ! taskFetch t)) \<in> set (payloads (drain ths w))"
  using assms
proof (induction ts arbitrary: w ths)
  case Nil
  then obtain th where ths: "ths = [th]" by (cases ths) auto
  from Nil have "payloads (runTask th w) =
     payloads w @ [(taskQuery t, response, forceIndex (heap w ! taskFetch t))]"
    by (intro runTask_head) simp_all
  with ths show ?case by simp
next
  case (Cons t0 ts)
  then obtain th ths' where ths: "ths = th # ths'" "length ths' = Suc (length ts)"
    by (cases ths) auto
  let ?w1 = "runTask th w"
  have q: "taskQueue ?w1 = ts @ t # rest" using Cons.prems(1) by (simp add: runTask_queue)
  from runTask_sameIdentity[of w th] Cons.prems(4)
  have f: "forceIndex (heap ?w1 ! taskFetch t) = forceIndex (heap w ! taskFetch t)"
    and l: "taskFetch t < length (heap ?w1)"
    by (simp_all add: heapRel_def sameIdentity_def identity_def)
  from Cons.IH[OF q Cons.prems(2) ths(2) l] f ths show ?case by simp
qed

lemma promiseResolved_awaiting:
  assumes "r < length (heap w)" "awaiting (heap w ! r) = Some sq"
  shows "taskQueue (promiseResolved r res w) =
           taskQueue w @ [\<lparr>taskFetch = r, taskQuery = sq, taskResult = res\<rparr>]"
    and "heap (promiseResolved r res w) =
           (heap w)[r := (heap w ! r)\<lparr>awaiting := None, fetchedSubtractedQuery := True\<rparr>]"
    and "maps (promiseResolved r res w) = maps w"
    and "trackerMap (promiseResolved r res w) = trackerMap w"
    and "payloads (promiseResolved r res w) = payloads w"
    and "fetched (promiseResolved r res w) = fetched w"
  using assms
  by (simp_all add: promiseResolved_def handleSubtractedQuerySuccess_def Let_def updateFetch_def)

section \<open>The registry holds allocated fetches\<close>

definition registryValid :: "world \<Rightarrow> bool" where
  "registryValid w =
     (trackerMap w < length (maps w) \<and>
      (\<forall>m entry. m < length (maps w) \<and> entry \<in> set (maps w ! m) \<longrightarrow>
         fetch (snd entry) < length (heap w)))"

lemma registryValid_update:
  assumes v: "registryValid w"
    and tm: "trackerMap w' = trackerMap w"
    and len: "length (heap w) \<le> length (heap w')"
    and ms: "maps w' = (maps w)[m := es]"
    and es: "\<And>entry. m < length (maps w) \<Longrightarrow> entry \<in> set es \<Longrightarrow>
       entry \<in> set (maps w ! m) \<or> fetch (snd entry) < length (heap w')"
  shows "registryValid w'"
  unfolding registryValid_def
proof (intro conjI allI impI)
  show "trackerMap w' < length (maps w')" using v tm ms by (simp add: registryValid_def)
next
  fix m' entry assume a: "m' < length (maps w') \<and> entry \<in> set (maps w' ! m')"
  then have m': "m' < length (maps w)" using ms by simp
  show "fetch (snd entry) < length (heap w')"
  proof (cases "m' = m")
    case True
    with a ms m' have "entry \<in> set es" by simp
    from es[OF _ this] True m' have
      "entry \<in> set (maps w ! m) \<or> fetch (snd entry) < length (heap w')" by simp
    then show ?thesis
    proof
      assume "entry \<in> set (maps w ! m)"
      with v True m' have "fetch (snd entry) < length (heap w)"
        unfolding registryValid_def by blast
      with len show ?thesis by simp
    qed
  next
    case False
    with a ms have "entry \<in> set (maps w ! m')" by simp
    with v m' have "fetch (snd entry) < length (heap w)"
      unfolding registryValid_def by blast
    with len show ?thesis by simp
  qed
qed

lemma registryValid_delete:
  assumes "registryValid w" "trackerMap w' = trackerMap w" "length (heap w) \<le> length (heap w')"
    "maps w' = (maps w)[m := AList.delete k (maps w ! m)]"
  shows "registryValid w'"
  using assms(1-4)
proof (rule registryValid_update)
  fix entry assume "entry \<in> set (AList.delete k (maps w ! m))"
  then show "entry \<in> set (maps w ! m) \<or> fetch (snd entry) < length (heap w')"
    by (simp add: AList.delete_eq)
qed

lemma set_update_cases: "entry \<in> set (AList.update k v m) \<Longrightarrow> entry \<in> set m \<or> entry = (k, v)"
  by (induction m) (auto split: if_splits)

lemma registryValid_insert:
  assumes "registryValid w" "trackerMap w' = trackerMap w" "length (heap w) \<le> length (heap w')"
    "maps w' = (maps w)[m := AList.update k v (maps w ! m)]" "fetch v < length (heap w')"
  shows "registryValid w'"
  using assms(1-4)
proof (rule registryValid_update)
  fix entry assume "entry \<in> set (AList.update k v (maps w ! m))"
  from set_update_cases[OF this] assms(5)
  show "entry \<in> set (maps w ! m) \<or> fetch (snd entry) < length (heap w')" by auto
qed

lemma registryValid_same:
  assumes "registryValid w" "trackerMap w' = trackerMap w" "length (heap w) \<le> length (heap w')"
    "maps w' = maps w"
  shows "registryValid w'"
  using assms unfolding registryValid_def by (auto intro: less_le_trans)

lemma markSubtractedQueryAsResolved_length [simp]:
  "length (heap (markSubtractedQueryAsResolved this w)) = length (heap w)"
  using markSubtractedQueryAsResolved_sameIdentity[of w this] by (simp add: heapRel_def)

lemma markAsRejected_length [simp]:
  "length (heap (markAsRejected this err w)) = length (heap w)"
  using markAsRejected_sameIdentity[of w this err] by (simp add: heapRel_def)

lemma registryValid_markSubtractedQueryAsResolved:
  "registryValid w \<Longrightarrow> registryValid (markSubtractedQueryAsResolved this w)"
  by (rule registryValid_delete[where m = "pendingFetchMap (heap w ! this)"
        and k = "getID (query (heap w ! this))"])
    (simp_all add: markSubtractedQueryAsResolved_maps)

lemma registryValid_markAsRejected:
  "registryValid w \<Longrightarrow> registryValid (markAsRejected this err w)"
  by (rule registryValid_delete[where m = "pendingFetchMap (heap w ! this)"
        and k = "getID (query (heap w ! this))"])
    (simp_all add: markAsRejected_maps)

lemma registryValid_cong:
  "heap w' = heap w \<Longrightarrow> maps w' = maps w \<Longrightarrow> trackerMap w' = trackerMap w \<Longrightarrow>
   registryValid w' = registryValid w"
  by (simp add: registryValid_def)

lemma registryValid_add:
  assumes a: "add gf crc mode fi q w = Inr (this, w')" and v: "registryValid w"
  shows "registryValid w'"
proof -
  let ?n = "length (heap w)"
  have v0: "registryValid (allocated fi q w)"
    using v by (rule registryValid_same) (simp_all add: allocated_def)
  show ?thesis
  proof (cases "mode = PRELOAD")
    case True
    with a have w': "w' = updateFetch ?n (\<lambda>pf. pf\<lparr>awaiting := Some (root q)\<rparr>)
         (updateMap (trackerMap w)
            (AList.update (getID q) \<lparr>fetch = ?n, pendingQuery = root q\<rparr>)
            (updateFetch ?n
               (\<lambda>pf. pf\<lparr>fetchedSubtractedQuery := False, errors := []\<rparr>) (allocated fi q w)))"
      by (auto simp: add_PRELOAD)
    show ?thesis
      by (rule registryValid_insert[OF v0, where m = "trackerMap w" and k = "getID q"
            and v = "\<lparr>fetch = ?n, pendingQuery = root q\<rparr>"])
        (simp_all add: w' updateMap_def)
  next
    case False
    from a False obtain remainder edges where
      wp: "walkPending gf crc (root q) Same (map snd (maps w ! trackerMap w)) = Inr (remainder, edges)"
      by (cases "walkPending gf crc (root q) Same (map snd (maps w ! trackerMap w))")
        (auto simp: add_other)
    let ?w1 = "forEach edges (addPendingDependency ?n) (allocated fi q w)"
    have v1: "registryValid ?w1"
      using v0 by (rule registryValid_same) simp_all
    show ?thesis
    proof (cases "resolve (root q) remainder")
      case None
      let ?w3 = "updateFetch ?n (\<lambda>pf. pf\<lparr>fetchedSubtractedQuery := True, errors := []\<rparr>) ?w1"
      from a False wp None have w': "w' = markSubtractedQueryAsResolved ?n ?w3"
        by (auto simp: add_other Let_def)
      have "registryValid ?w3" using v1 by (rule registryValid_same) simp_all
      then show ?thesis unfolding w' by (rule registryValid_markSubtractedQueryAsResolved)
    next
      case (Some sq)
      let ?w2 = "?w1\<lparr>fetched := fetched ?w1 @ [sq]\<rparr>"
      from a False wp Some have w': "w' =
          updateFetch ?n (\<lambda>pf. pf\<lparr>awaiting := Some sq\<rparr>)
            (updateMap (trackerMap w)
               (AList.update (getID q) \<lparr>fetch = ?n, pendingQuery = sq\<rparr>)
               (updateFetch ?n
                  (\<lambda>pf. pf\<lparr>fetchedSubtractedQuery := False, errors := []\<rparr>) ?w2))"
        by (auto simp: add_other Let_def)
      show ?thesis
        by (rule registryValid_insert[OF v1, where m = "trackerMap w" and k = "getID q"
              and v = "\<lparr>fetch = ?n, pendingQuery = sq\<rparr>"])
          (simp_all add: w' updateMap_def)
    qed
  qed
qed

lemma registryValid_resetPending: "registryValid w \<Longrightarrow> registryValid (resetPending w)"
  by (auto simp: registryValid_def resetPending_def nth_append less_Suc_eq)

lemma registryValid_promiseResolved:
  "registryValid w \<Longrightarrow> registryValid (promiseResolved r res w)"
  by (cases "awaiting (heap w ! r)")
    (auto simp: promiseResolved_def handleSubtractedQuerySuccess_def Let_def
      intro: registryValid_same)

lemma registryValid_promiseRejected:
  "registryValid w \<Longrightarrow> registryValid (promiseRejected r err w)"
  by (cases "awaiting (heap w ! r)")
    (auto simp: promiseRejected_def handleSubtractedQueryFailure_def
      intro!: registryValid_markAsRejected intro: registryValid_same)

lemma registryValid_runTask: "registryValid w \<Longrightarrow> registryValid (runTask thrown w)"
  by (cases "taskQueue w")
    (auto simp: runTask_def Let_def split: option.splits
      intro!: registryValid_markAsRejected registryValid_markSubtractedQueryAsResolved
      intro: registryValid_same)

lemma reachable_registryValid: "reachable gf crc w \<Longrightarrow> registryValid w"
proof (induction rule: reachable.induct)
  case reachInit
  show ?case by (auto simp: registryValid_def newTracker_def nth_Cons')
next
  case (reachStep w w')
  from reachStep.hyps(2) reachStep.IH show ?case
    by cases
      (auto intro: registryValid_add registryValid_resetPending registryValid_promiseResolved
        registryValid_promiseRejected registryValid_runTask)
qed

lemma step_trackerMap [simp]:
  "trackerMap (promiseResolved r res w) = trackerMap w"
  "trackerMap (promiseRejected r err w) = trackerMap w"
  "trackerMap (runTask thrown w) = trackerMap w"
proof -
  show "trackerMap (promiseResolved r res w) = trackerMap w"
    by (simp add: promiseResolved_def handleSubtractedQuerySuccess_def Let_def
        split: option.splits)
  show "trackerMap (promiseRejected r err w) = trackerMap w"
    by (simp add: promiseRejected_def handleSubtractedQueryFailure_def split: option.splits)
  show "trackerMap (runTask thrown w) = trackerMap w"
    by (cases "taskQueue w") (auto simp: runTask_def Let_def split: option.splits)
qed

section \<open>How long an entry stays in a registry\<close>


lemma promiseResolved_frame [simp]:
  "maps (promiseResolved r res w) = maps w"
  "length (heap (promiseResolved r res w)) = length (heap w)"
  by (simp_all add: promiseResolved_def handleSubtractedQuerySuccess_def Let_def
      split: option.splits)

lemma promiseRejected_frame [simp]:
  "taskQueue (promiseRejected r err w) = taskQueue w"
  "length (heap (promiseRejected r err w)) = length (heap w)"
  by (simp_all add: promiseRejected_def handleSubtractedQueryFailure_def split: option.splits)

lemma runTask_length [simp]: "length (heap (runTask thrown w)) = length (heap w)"
  using runTask_sameIdentity[of w thrown] by (simp add: heapRel_def)









definition registered :: "queryID \<Rightarrow> mapRef \<Rightarrow> world \<Rightarrow> bool" where
  "registered k m w = (k \<in> fst ` set (maps w ! m))"







lemma registered_cong: "maps w' = maps w \<Longrightarrow> registered k m w' = registered k m w"
  by (simp add: registered_def)


section \<open>Example trackers\<close>

text \<open>
  Modelled from the spec: \<open>containsRelayQueryRootCall\<close> is not among the sources. "For
  every entry whose root overlaps the query's root (same field/identifying-argument)": the
  test of \<open>canSubtractRoot\<close>. It instantiates the parameter \<open>crc\<close> in the examples only.
\<close>

definition containsRelayQueryRootCall :: containsRootCall where
  "containsRelayQueryRootCall thisRoot thatRoot = canSubtractRoot thatRoot thisRoot"

text \<open>Query \<open>q0\<close> asks for \<open>id, name\<close> of a node, query \<open>q1\<close> for \<open>id, name, email\<close>.\<close>

definition exQueryA :: query where
  "exQueryA = \<lparr>getID = ''q0'',
     root = Root ''node'' None [exScalar ''id'' True, exScalar ''name'' False]\<rparr>"

definition exQueryB :: query where
  "exQueryB = \<lparr>getID = ''q1'',
     root = Root ''node'' None
       [exScalar ''id'' True, exScalar ''name'' False, exScalar ''email'' False]\<rparr>"

text \<open>The tracker after \<open>q0\<close> was enqueued on a new tracker, its fetch in flight.\<close>

definition exWorld :: world where
  "exWorld =
     \<lparr>heap = [(newPendingFetch None exQueryA 0)\<lparr>awaiting := Some (root exQueryA)\<rparr>],
      maps = [[(''q0'', \<lparr>fetch = 0, pendingQuery = root exQueryA\<rparr>)]],
      trackerMap = 0,
      fetched = [root exQueryA],
      taskQueue = [],
      payloads = []\<rparr>"

lemmas tracker_defs = add_def subtractPending_def subtractPendingCallback_def
  addPendingDependency_def addDependent_def updateFetch_def updateMap_def forEach_def
  markSubtractedQueryAsResolved_def markAsRejected_def markDependencyAsResolved_def
  markDependencyAsRejected_def updateResolvedDeferred_def isSettled_def hasItems_def
  deferredIsSettled_def newPendingFetch_def newTracker_def
  containsRelayQueryRootCall_def exQueryA_def exQueryB_def exWorld_def
  promiseResolved_def promiseRejected_def handleSubtractedQuerySuccess_def
  handleSubtractedQueryFailure_def runTask_def resetPending_def hasPendingQueries_def

lemma exWorld_add:
  "add getField containsRelayQueryRootCall CLIENT None exQueryA newTracker = Inr (0, exWorld)"
  by (simp add: tracker_defs run_simps ex_defs)

lemma exWorld_reachable: "reachable getField containsRelayQueryRootCall exWorld"
  using reachInit exWorld_add[THEN stepAdd] by (rule reachStep)






section \<open>The claims about RelayPendingQueryTracker\<close>

text \<open>
  C3: in every world the tracker can reach, every fetch has settled its future at most
  once, and has settled it exactly when its own subtracted query has resolved with no
  pending dependency left, or an error has been recorded for it: the future fires at the
  first moment the condition holds. A rejection carries the first recorded error. Every
  further event only appends errors, leaves a settled future as it is, and settles an
  unsettled one with a rejection by the first error of the list when there is one, with a
  resolution otherwise.
\<close>

theorem settlement_fires_once:
  assumes "reachable gf crc w" and "r < length (heap w)"
  shows "settledOnce (heap w ! r) \<and>
         (\<forall>w'. step gf crc w w' \<longrightarrow> firesRight (heap w ! r) (heap w' ! r))"
proof (intro conjI allI impI)
  show s: "settledOnce (heap w ! r)" using assms by (rule reachable_settledOnce)
  fix w' assume "step gf crc w w'"
  from step_calm[OF this] assms(2) have "calm (heap w ! r) (heap w' ! r)" by simp
  with s show "firesRight (heap w ! r) (heap w' ! r)"
    by (auto simp: calm_def intro: firesRight_quiet firesRight_loud)
qed

theorem settlement_fires_once_witness:
  "reachable getField containsRelayQueryRootCall exWorld \<and>
   0 < length (heap exWorld) \<and>
   settledOnce (heap exWorld ! 0) \<and>
   resolvedDeferred (heap exWorld ! 0) = [] \<and>
   \<not> settleCondition (heap exWorld ! 0) \<and>
   firesRight (heap exWorld ! 0) (heap (promiseRejected 0 (Thrown ''timeout'') exWorld) ! 0) \<and>
   resolvedDeferred (heap (promiseRejected 0 (Thrown ''timeout'') exWorld) ! 0) =
     [Rejected (Thrown ''timeout'')] \<and>
   reachable getField containsRelayQueryRootCall (promiseResolved 0 (Some ''response'') exWorld) \<and>
   resolvedDeferred (heap (promiseResolved 0 (Some ''response'') exWorld) ! 0) = [] \<and>
   firesRight (heap (promiseResolved 0 (Some ''response'') exWorld) ! 0)
     (heap (runTask None (promiseResolved 0 (Some ''response'') exWorld)) ! 0) \<and>
   reachable getField containsRelayQueryRootCall
     (runTask None (promiseResolved 0 (Some ''response'') exWorld)) \<and>
   settledOnce (heap (runTask None (promiseResolved 0 (Some ''response'') exWorld)) ! 0) \<and>
   settleCondition (heap (runTask None (promiseResolved 0 (Some ''response'') exWorld)) ! 0) \<and>
   resolvedDeferred (heap (runTask None (promiseResolved 0 (Some ''response'') exWorld)) ! 0) =
     [Resolved]"
proof -
  let ?w1 = "promiseResolved 0 (Some ''response'') exWorld"
  let ?w2 = "runTask None ?w1"
  have l: "0 < length (heap exWorld)" by (simp add: exWorld_def)
  have s: "step getField containsRelayQueryRootCall exWorld
      (promiseRejected 0 (Thrown ''timeout'') exWorld)"
    using l by (rule stepRejected)
  have s1: "step getField containsRelayQueryRootCall exWorld ?w1"
    using l by (rule stepResolved)
  have s2: "step getField containsRelayQueryRootCall ?w1 ?w2" by (rule stepTask)
  have r1: "reachable getField containsRelayQueryRootCall ?w1"
    using exWorld_reachable s1 by (rule reachStep)
  have r2: "reachable getField containsRelayQueryRootCall ?w2"
    using r1 s2 by (rule reachStep)
  have l1: "0 < length (heap ?w1)" and l2: "0 < length (heap ?w2)"
    by (simp_all add: tracker_defs Let_def)
  have ev: "resolvedDeferred (heap exWorld ! 0) = []"
    "\<not> settleCondition (heap exWorld ! 0)"
    "resolvedDeferred (heap (promiseRejected 0 (Thrown ''timeout'') exWorld) ! 0) =
       [Rejected (Thrown ''timeout'')]"
    "resolvedDeferred (heap ?w1 ! 0) = []"
    "resolvedDeferred (heap ?w2 ! 0) = [Resolved]"
    "settleCondition (heap ?w2 ! 0)"
    by (simp_all add: tracker_defs settleCondition_def Let_def)
  from settlement_fires_once[OF exWorld_reachable l] s
  have a: "settledOnce (heap exWorld ! 0)"
    "firesRight (heap exWorld ! 0) (heap (promiseRejected 0 (Thrown ''timeout'') exWorld) ! 0)"
    by blast+
  from settlement_fires_once[OF r1 l1] s2
  have b: "firesRight (heap ?w1 ! 0) (heap ?w2 ! 0)" by blast
  from settlement_fires_once[OF r2 l2] have c: "settledOnce (heap ?w2 ! 0)" by blast
  from exWorld_reachable l a ev r1 b r2 c show ?thesis by simp
qed

text \<open>
  C4: an enqueue with a mode other than \<open>PRELOAD\<close>, on a tracker whose registries hold
  allocated fetches (every reachable one, \<open>reachable_registryValid\<close>), does what the walk
  of the spec says. When a subtraction of the walk fails, so does the enqueue. Otherwise
  the new fetch gets the next address; its dependency map holds the edges of the walk,
  under the query IDs of the fetches they lead to; those fetches get the new fetch as a
  dependent, once per edge, and nothing else of them changes. When the final remainder is
  null the own query is marked as fetched and resolved, no callback waits for a promise,
  no query is passed to the network layer, and the registry loses the entry of the query
  ID. Otherwise the remainder is passed to the network layer and registered under the
  query ID with the new fetch.
\<close>

theorem enqueue_subtracts_pending:
  assumes mode: "mode \<noteq> PRELOAD" and rv: "registryValid w"
  shows "case walkPending gf crc (root q) Same (map snd (maps w ! trackerMap w)) of
      Inl e \<Rightarrow> add gf crc mode fi q w = Inl e
    | Inr (remainder, edges) \<Rightarrow>
        (\<exists>w'. add gf crc mode fi q w = Inr (length (heap w), w') \<and>
           length (heap w') = Suc (length (heap w)) \<and>
           pendingDependencyMap (heap w' ! length (heap w)) = depMapOf (heap w) edges [] \<and>
           (\<forall>r < length (heap w).
              heap w' ! r = (heap w ! r)\<lparr>dependents :=
                dependents (heap w ! r) @ replicate (count_list edges r) (length (heap w))\<rparr>) \<and>
           (case resolve (root q) remainder of
              None \<Rightarrow>
                fetchedSubtractedQuery (heap w' ! length (heap w)) \<and>
                resolvedSubtractedQuery (heap w' ! length (heap w)) \<and>
                awaiting (heap w' ! length (heap w)) = None \<and>
                fetched w' = fetched w \<and>
                maps w' ! trackerMap w' = AList.delete (getID q) (maps w ! trackerMap w)
            | Some sq \<Rightarrow>
                \<not> fetchedSubtractedQuery (heap w' ! length (heap w)) \<and>
                \<not> resolvedSubtractedQuery (heap w' ! length (heap w)) \<and>
                awaiting (heap w' ! length (heap w)) = Some sq \<and>
                fetched w' = fetched w @ [sq] \<and>
                maps w' ! trackerMap w' =
                  AList.update (getID q) \<lparr>fetch = length (heap w), pendingQuery = sq\<rparr>
                    (maps w ! trackerMap w)))"
proof -
  from rv have tm: "trackerMap w < length (maps w)" by (simp add: registryValid_def)
  with rv have
    valid: "\<forall>entry \<in> set (maps w ! trackerMap w). fetch (snd entry) < length (heap w)"
    unfolding registryValid_def by blast
  show ?thesis
  proof (cases "walkPending gf crc (root q) Same (map snd (maps w ! trackerMap w))")
  case (Inl e)
  with mode show ?thesis by (simp add: add_other)
next
  case (Inr p)
  obtain remainder edges where p: "p = (remainder, edges)" by (cases p)
  let ?n = "length (heap w)"
  let ?w0 = "allocated fi q w"
  let ?w1 = "forEach edges (addPendingDependency ?n) ?w0"
  from Inr p have "set edges \<subseteq> fetch ` set (map snd (maps w ! trackerMap w))"
    by (auto dest!: walkPending_edges)
  with valid have ev: "\<forall>d \<in> set edges. d < ?n" by auto
  then have pre: "?n < length (heap ?w0)" "\<forall>d \<in> set edges. d < length (heap ?w0) \<and> d \<noteq> ?n"
    by auto
  note fx = forEach_addPendingDependency_heap[OF pre]
  have dm: "depMapOf (heap ?w0) edges [] = depMapOf (heap w) edges []"
    using ev by (intro depMapOf_cong) simp
  have new1: "heap ?w1 ! ?n =
      (newPendingFetch fi q (trackerMap w))\<lparr>pendingDependencyMap := depMapOf (heap w) edges []\<rparr>"
    using fx dm by (simp add: newPendingFetch_def)
  have old1: "heap ?w1 ! r = (heap w ! r)\<lparr>dependents :=
      dependents (heap w ! r) @ replicate (count_list edges r) ?n\<rparr>" if "r < ?n" for r
    using fx that by simp
  show ?thesis
  proof (cases "resolve (root q) remainder")
    case None
    let ?w3 = "updateFetch ?n (\<lambda>pf. pf\<lparr>fetchedSubtractedQuery := True, errors := []\<rparr>) ?w1"
    have n3: "heap ?w3 ! ?n = (newPendingFetch fi q (trackerMap w))\<lparr>pendingDependencyMap :=
        depMapOf (heap w) edges [], fetchedSubtractedQuery := True\<rparr>"
      by (simp add: updateFetch_nth new1 newPendingFetch_def)
    then have "dependents (heap ?w3 ! ?n) = []" by (simp add: newPendingFetch_def)
    from markSubtractedQueryAsResolved_alone[OF this]
    have ms: "markSubtractedQueryAsResolved ?n ?w3 =
      updateFetch ?n (\<lambda>pf. updateResolvedDeferred (pf\<lparr>resolvedSubtractedQuery := True\<rparr>))
        (updateMap (trackerMap w) (AList.delete (getID q)) ?w3)"
      by (simp add: n3 newPendingFetch_def)
    let ?w' = "markSubtractedQueryAsResolved ?n ?w3"
    have a: "add gf crc mode fi q w = Inr (?n, ?w')"
      using mode Inr p None by (simp add: add_other Let_def)
    have n': "heap ?w' ! ?n = updateResolvedDeferred ((heap ?w3 ! ?n)\<lparr>resolvedSubtractedQuery := True\<rparr>)"
      by (simp add: ms updateFetch_nth)
    have o': "heap ?w' ! r = heap ?w1 ! r" if "r < ?n" for r
      using that by (simp add: ms updateFetch_nth)
    have "length (heap ?w') = Suc ?n" by (simp add: ms)
    moreover have "pendingDependencyMap (heap ?w' ! ?n) = depMapOf (heap w) edges []"
      unfolding n' by (simp add: n3)
    moreover have "fetchedSubtractedQuery (heap ?w' ! ?n)" "resolvedSubtractedQuery (heap ?w' ! ?n)"
      "awaiting (heap ?w' ! ?n) = None"
      unfolding n' by (simp_all add: n3 newPendingFetch_def)
    moreover have "fetched ?w' = fetched w" by (simp add: ms)
    moreover have "maps ?w' ! trackerMap ?w' = AList.delete (getID q) (maps w ! trackerMap w)"
      using tm by (simp add: ms updateMap_nth)
    ultimately show ?thesis using Inr p None a o' old1 by simp
  next
    case (Some sq)
    let ?w' = "updateFetch ?n (\<lambda>pf. pf\<lparr>awaiting := Some sq\<rparr>)
          (updateMap (trackerMap w)
             (AList.update (getID q) \<lparr>fetch = ?n, pendingQuery = sq\<rparr>)
             (updateFetch ?n
                (\<lambda>pf. pf\<lparr>fetchedSubtractedQuery := False, errors := []\<rparr>)
                (?w1\<lparr>fetched := fetched ?w1 @ [sq]\<rparr>)))"
    have a: "add gf crc mode fi q w = Inr (?n, ?w')"
      using mode Inr p Some by (simp add: add_other Let_def)
    have n': "heap ?w' ! ?n = (heap ?w1 ! ?n)\<lparr>fetchedSubtractedQuery := False, errors := [],
        awaiting := Some sq\<rparr>"
      by (simp add: updateFetch_nth)
    have o': "heap ?w' ! r = heap ?w1 ! r" if "r < ?n" for r
      using that by (simp add: updateFetch_nth)
    have "length (heap ?w') = Suc ?n" by simp
    moreover have "pendingDependencyMap (heap ?w' ! ?n) = depMapOf (heap w) edges []"
      unfolding n' by (simp add: new1)
    moreover have "\<not> fetchedSubtractedQuery (heap ?w' ! ?n)"
      "\<not> resolvedSubtractedQuery (heap ?w' ! ?n)" "awaiting (heap ?w' ! ?n) = Some sq"
      unfolding n' by (simp_all add: new1 newPendingFetch_def)
    moreover have "fetched ?w' = fetched w @ [sq]" by simp
    moreover have "maps ?w' ! trackerMap ?w' =
        AList.update (getID q) \<lparr>fetch = ?n, pendingQuery = sq\<rparr> (maps w ! trackerMap w)"
      using tm by (simp add: updateMap_nth)
    ultimately show ?thesis using Inr p Some a o' old1 by simp
  qed
qed
qed

theorem enqueue_subtracts_pending_witness:
  "CLIENT \<noteq> PRELOAD \<and> registryValid exWorld \<and>
   walkPending getField containsRelayQueryRootCall (root exQueryB) Same
     (map snd (maps exWorld ! trackerMap exWorld)) =
     Inr (New (Root ''node'' None [exScalar ''id'' True, exScalar ''email'' False]), [0]) \<and>
   (\<exists>w'. add getField containsRelayQueryRootCall CLIENT None exQueryB exWorld = Inr (1, w') \<and>
      length (heap w') = 2 \<and>
      pendingDependencyMap (heap w' ! 1) = [(''q0'', 0)] \<and>
      dependents (heap w' ! 0) = [1] \<and>
      awaiting (heap w' ! 1) =
        Some (Root ''node'' None [exScalar ''id'' True, exScalar ''email'' False]) \<and>
      fetched w' = [root exQueryA,
        Root ''node'' None [exScalar ''id'' True, exScalar ''email'' False]])"
proof -
  have m: "CLIENT \<noteq> PRELOAD" by simp
  have v: "registryValid exWorld" using exWorld_reachable by (rule reachable_registryValid)
  have wp: "walkPending getField containsRelayQueryRootCall (root exQueryB) Same
     (map snd (maps exWorld ! trackerMap exWorld)) =
     Inr (New (Root ''node'' None [exScalar ''id'' True, exScalar ''email'' False]), [0])"
    by (simp add: tracker_defs run_simps ex_defs)
  have h: "length (heap exWorld) = 1" "fetched exWorld = [root exQueryA]"
    "depMapOf (heap exWorld) [0] [] = [(''q0'', 0)]"
    "dependents (heap exWorld ! 0) = []"
    by (simp_all add: exWorld_def depMapOf_def newPendingFetch_def exQueryA_def)
  from enqueue_subtracts_pending[OF m v, where gf = getField and crc = containsRelayQueryRootCall and q = exQueryB
      and fi = None]
  obtain w' where
    "add getField containsRelayQueryRootCall CLIENT None exQueryB exWorld = Inr (1, w')"
    "length (heap w') = 2" "pendingDependencyMap (heap w' ! 1) = [(''q0'', 0)]"
    "heap w' ! 0 = (heap exWorld ! 0)\<lparr>dependents :=
       dependents (heap exWorld ! 0) @ replicate (count_list [0] 0) 1\<rparr>"
    "awaiting (heap w' ! 1) =
        Some (Root ''node'' None [exScalar ''id'' True, exScalar ''email'' False])"
    "fetched w' = [root exQueryA,
        Root ''node'' None [exScalar ''id'' True, exScalar ''email'' False]]"
    unfolding wp by (auto simp: h)
  then show ?thesis using m v wp by (auto simp: h)
qed

text \<open>
  C6: after \<open>resetPending\<close> the tracker has no pending query. The fetches (their queries,
  dependency maps, errors, futures, and the callbacks waiting for their promises), the
  queries passed to the network layer, the task queue, the payloads and the former
  registry objects are what they were. A fetch that was in flight and whose promise then
  resolves with a response has its payload handed to \<open>handleQueryPayload\<close>, with its
  subtracted query and force index, once the task queue has run the tasks before it and
  its own.
\<close>

theorem resetPending_forgets_registry_only:
  "\<not> hasPendingQueries (resetPending w) \<and>
   heap (resetPending w) = heap w \<and>
   fetched (resetPending w) = fetched w \<and>
   taskQueue (resetPending w) = taskQueue w \<and>
   payloads (resetPending w) = payloads w \<and>
   (\<forall>m < length (maps w). maps (resetPending w) ! m = maps w ! m) \<and>
   (r < length (heap w) \<and> awaiting (heap w ! r) = Some sq \<and>
    length ths = Suc (length (taskQueue w)) \<longrightarrow>
      (sq, response, forceIndex (heap w ! r)) \<in>
        set (payloads (drain ths (promiseResolved r (Some response) (resetPending w)))))"
proof (intro conjI allI impI)
  show "\<not> hasPendingQueries (resetPending w)"
    by (simp add: hasPendingQueries_def resetPending_def hasItems_def)
next
  fix m assume "m < length (maps w)"
  then show "maps (resetPending w) ! m = maps w ! m"
    by (simp add: resetPending_def nth_append)
next
  assume a: "r < length (heap w) \<and> awaiting (heap w ! r) = Some sq \<and>
    length ths = Suc (length (taskQueue w))"
  let ?w1 = "promiseResolved r (Some response) (resetPending w)"
  let ?t = "\<lparr>taskFetch = r, taskQuery = sq, taskResult = Some response\<rparr>"
  have pre: "r < length (heap (resetPending w))" "awaiting (heap (resetPending w) ! r) = Some sq"
    using a by (simp_all add: resetPending_def)
  have q: "taskQueue ?w1 = taskQueue w @ ?t # []"
    using promiseResolved_awaiting(1)[OF pre] by (simp add: resetPending_def)
  have h: "heap ?w1 = (heap w)[r := (heap w ! r)\<lparr>awaiting := None, fetchedSubtractedQuery := True\<rparr>]"
    using promiseResolved_awaiting(2)[OF pre] by (simp add: resetPending_def)
  from a h have l: "taskFetch ?t < length (heap ?w1)" by simp
  from drain_delivers[OF q _ _ l, of response ths] a
  have "(taskQuery ?t, response, forceIndex (heap ?w1 ! taskFetch ?t)) \<in> set (payloads (drain ths ?w1))"
    by simp
  moreover from a h have "forceIndex (heap ?w1 ! r) = forceIndex (heap w ! r)" by simp
  ultimately show "(sq, response, forceIndex (heap w ! r)) \<in> set (payloads (drain ths ?w1))"
    by simp
qed (simp_all add: resetPending_def)

theorem resetPending_forgets_registry_only_witness:
  "0 < length (heap exWorld) \<and>
   awaiting (heap exWorld ! 0) = Some (root exQueryA) \<and>
   hasPendingQueries exWorld \<and>
   \<not> hasPendingQueries (resetPending exWorld) \<and>
   heap (resetPending exWorld) = heap exWorld \<and>
   (root exQueryA, ''response'', None) \<in>
     set (payloads (drain [None] (promiseResolved 0 (Some ''response'') (resetPending exWorld))))"
proof -
  have a: "0 < length (heap exWorld)" "awaiting (heap exWorld ! 0) = Some (root exQueryA)"
    "length [None :: error option] = Suc (length (taskQueue exWorld))"
    "forceIndex (heap exWorld ! 0) = None" "hasPendingQueries exWorld"
    by (simp_all add: exWorld_def newPendingFetch_def hasPendingQueries_def hasItems_def)
  from resetPending_forgets_registry_only[of exWorld 0 "root exQueryA" "[None]" "''response''"] a show ?thesis by simp
qed





end
